theory Spec2Isabelle
  imports Main "HOL-Library.Word" "HOL-Library.Multiset" "HOL-Library.Signed_Division"
begin

unbundle bit_operations_syntax

section \<open>Cells and faults\<close>

text \<open>
  A \<open>muse_cell\<close> is an opaque integer handle. The source tests cells with
  \<open>if ( args )\<close>, \<open>while ( alist )\<close> and \<open>value != MUSE_NIL\<close>: the empty value
  is the zero handle. The C \<open>int\<close> fields (lengths, counts, indices) are integers of
  the model, and so are the values of \<open>muse_int\<close>, the wider integer type of the
  language.
\<close>

type_synonym muse_cell = int
type_synonym muse_int = int

definition MUSE_NIL :: muse_cell where
  "MUSE_NIL = 0"

text \<open>
  The conversion \<open>(int)\<close> of a \<open>muse_int\<close> keeps the low 32 bits: the value modulo
  \<open>2^32\<close>, in the range of \<open>int\<close>. The hash table computes with its counts in
  \<open>int\<close> (\<open>count + 1\<close>, \<open>2 * bucket_count\<close>, \<open>++count\<close>, \<open>--count\<close>); where such a
  result leaves the range of \<open>int\<close>, the model takes the value the two's complement
  machine computes, which is the same conversion of the exact result.
\<close>

definition int_cast :: "muse_int \<Rightarrow> int" where
  "int_cast x = (x + 2147483648) mod 4294967296 - 2147483648"

text \<open>
  What the C code does when it leaves defined behaviour is a value of the model:
  a failed \<open>muse_assert\<close>, a division by zero, an array access outside the array,
  \<open>_head\<close>/\<open>_tail\<close>/\<open>_sett\<close> on a handle that is not a pair cell, and \<open>ftell\<close>
  on a null stream.
\<close>

datatype fault = AssertionFailed | DivisionByZero | BadIndex | NotACons | NullStream

section \<open>Vectors (muse\_builtin\_vector.c)\<close>

record vector_t =
  length_v :: int
  slots :: "muse_cell list"

text \<open>The functional-object constructor zero-initialises the block before \<open>init\<close>.\<close>

definition vector_zero :: vector_t where
  "vector_zero = \<lparr>length_v = 0, slots = []\<rparr>"

text \<open>The slot array of a vector has exactly \<open>length\<close> cells.\<close>

definition vector_ok :: "vector_t \<Rightarrow> bool" where
  "vector_ok v \<longleftrightarrow> 0 \<le> length_v v \<and> int (length (slots v)) = length_v v"

definition vector_init_with_length :: "vector_t \<Rightarrow> int \<Rightarrow> vector_t" where
  "vector_init_with_length v len =
     (if len > 0 then v\<lparr>length_v := len, slots := replicate (nat len) MUSE_NIL\<rparr> else v)"

text \<open>
  Argument lists are lists of already evaluated cells: \<open>muse_evalnext\<close> takes the
  first one. \<open>muse_int_value\<close> belongs to the cell heap; it is the parameter \<open>iv\<close>.
\<close>

definition vector_init :: "(muse_cell \<Rightarrow> int) \<Rightarrow> vector_t \<Rightarrow> muse_cell list \<Rightarrow> vector_t" where
  "vector_init iv v args =
     vector_init_with_length v (case args of [] \<Rightarrow> 0 | a # _ \<Rightarrow> int_cast (iv a))"

definition fn_mk_vector :: "(muse_cell \<Rightarrow> int) \<Rightarrow> muse_cell list \<Rightarrow> vector_t" where
  "fn_mk_vector iv args = vector_init iv vector_zero args"



text \<open>
  Modelled from the spec: \<open>muse_array_to_list\<close>, \<open>muse_list_length\<close> and
  \<open>muse_list_extract\<close> are not in the source files. A list is a HOL list of cells.
  \<open>muse_array_to_list count arr step\<close> builds the list of the \<open>count\<close> cells
  \<open>arr[0], arr[step], ...\<close>; \<open>muse_list_extract n list 1 arr 1\<close> copies the first
  \<open>n\<close> elements of the list into \<open>arr[0..n)\<close>.
\<close>

fun muse_array_to_list :: "nat \<Rightarrow> muse_cell list \<Rightarrow> int \<Rightarrow> int \<Rightarrow> fault + muse_cell list" where
  "muse_array_to_list 0 arr from step = Inr []"
| "muse_array_to_list (Suc n) arr from step =
     (if \<not> (0 \<le> from \<and> nat from < length arr) then Inl BadIndex
      else (case muse_array_to_list n arr (from + step) step of
              Inl e \<Rightarrow> Inl e
            | Inr l \<Rightarrow> Inr (arr ! nat from # l)))"

definition muse_list_length :: "muse_cell list \<Rightarrow> int" where
  "muse_list_length l = int (length l)"

definition muse_list_extract :: "nat \<Rightarrow> muse_cell list \<Rightarrow> muse_cell list \<Rightarrow> muse_cell list" where
  "muse_list_extract n l arr = take n l @ drop n arr"

text \<open>\<open>fn_list_to_vector\<close> returns a vector object or \<open>MUSE_NIL\<close> (\<open>None\<close>).\<close>

definition fn_list_to_vector :: "(muse_cell \<Rightarrow> int) \<Rightarrow> muse_cell list \<Rightarrow> vector_t option" where
  "fn_list_to_vector iv l =
     (let len = muse_list_length l in
      if len > 0 then
        (let fv = fn_mk_vector iv [];
             v = vector_init_with_length fv len
         in Some (v\<lparr>slots := muse_list_extract (nat len) l (slots v)\<rparr>))
      else None)"

text \<open>
  \<open>fn_vector_to_list\<close>: the arguments after the vector are the optional
  \<open>from\<close>, \<open>count\<close> and \<open>step\<close>.
\<close>

definition fn_vector_to_list ::
  "(muse_cell \<Rightarrow> int) \<Rightarrow> bool \<Rightarrow> vector_t \<Rightarrow> muse_cell list \<Rightarrow> fault + muse_cell list" where
  "fn_vector_to_list iv diag v args =
     (let from = (case args of a # _ \<Rightarrow> int_cast (iv a) | [] \<Rightarrow> 0);
          args1 = tl args;
          count0 = length_v v - from;
          cnt = (case args1 of a # _ \<Rightarrow> int_cast (iv a) | [] \<Rightarrow> count0);
          args2 = tl args1;
          step = (case args2 of a # _ \<Rightarrow> int_cast (iv a) | [] \<Rightarrow> 1)
      in if diag \<and> \<not> (cnt \<ge> 0 \<and> from \<ge> 0 \<and> from + step * cnt \<le> length_v v)
         then Inl AssertionFailed
         else muse_array_to_list (nat cnt) (slots v) from step)"

section \<open>File ports (muse\_builtin\_fileport.c)\<close>

text \<open>
  The C library and the operating system, as far as the file port uses them: a
  descriptor names an open stream, a stream is its bytes and one offset. A \<open>FILE\<close> is
  known by its descriptor (\<open>fileno\<close>), and \<open>ftell\<close>, \<open>fread\<close> and \<open>fwrite\<close> act on
  the stream at the descriptor's offset (no bytes are held back in a stdio buffer).
\<close>

type_synonym byte = "8 word"

record stream =
  content :: "byte list"
  offset :: nat

type_synonym os = "int \<Rightarrow> stream option"

text \<open>\<open>read(desc, c, n)\<close>: the count (\<open>-1\<close> on a descriptor that is not open), the bytes read, and the system after.\<close>

definition sys_read :: "os \<Rightarrow> int \<Rightarrow> nat \<Rightarrow> int \<times> byte list \<times> os" where
  "sys_read w d n =
     (case w d of
        None \<Rightarrow> (-1, [], w)
      | Some s \<Rightarrow>
          (let got = take n (drop (offset s) (content s))
           in (int (length got), got, w(d \<mapsto> s\<lparr>offset := offset s + length got\<rparr>))))"

definition sys_write :: "os \<Rightarrow> int \<Rightarrow> byte list \<Rightarrow> int \<times> os" where
  "sys_write w d bs =
     (case w d of
        None \<Rightarrow> (-1, w)
      | Some s \<Rightarrow>
          (int (length bs),
           w(d \<mapsto> \<lparr>content = take (offset s) (content s) @ bs
                              @ drop (offset s + length bs) (content s),
                    offset = offset s + length bs\<rparr>)))"

definition sys_tell :: "os \<Rightarrow> int \<Rightarrow> int" where
  "sys_tell w d = (case w d of None \<Rightarrow> -1 | Some s \<Rightarrow> int (offset s))"

datatype port_mode_bit =
  MUSE_PORT_READ | MUSE_PORT_WRITE | MUSE_PORT_TRUSTED_INPUT | MUSE_PORT_EZSCHEME

record in_buffer =
  bytes :: "byte list"
  pos :: int
  avail :: int

record muse_port_base_t =
  mode :: "port_mode_bit set"
  inb :: in_buffer
  eof :: int
  error :: int

record fileport_t =
  base :: muse_port_base_t
  desc :: int
  file_ptr :: "int option"

text \<open>The block of a new file port, zero-initialised by the object constructor.\<close>

definition fileport_zero :: fileport_t where
  "fileport_zero =
     \<lparr>base = \<lparr>mode = {}, inb = \<lparr>bytes = [], pos = 0, avail = 0\<rparr>, eof = 0, error = 0\<rparr>,
      desc = 0, file_ptr = None\<rparr>"

definition check_for_ezscheme_file :: "fileport_t \<Rightarrow> fileport_t" where
  "check_for_ezscheme_file p =
     (if avail (inb (base p)) > 0 \<and> bytes (inb (base p)) ! 0 = 0x23
      then p\<lparr>base := (base p)\<lparr>mode := insert MUSE_PORT_EZSCHEME (mode (base p))\<rparr>\<rparr>
      else p)"

definition k_utf8_header :: "byte list" where
  "k_utf8_header = [0xef, 0xbb, 0xbf]"

text \<open>\<open>write_utf8_header\<close>: \<open>windows\<close> says whether \<open>MUSE_PLATFORM_WINDOWS\<close> is defined.\<close>

definition write_utf8_header :: "bool \<Rightarrow> fileport_t \<Rightarrow> os \<Rightarrow> os" where
  "write_utf8_header windows p w =
     (if windows then
        (if sys_tell w (desc p) = 0 then snd (sys_write w (desc p) k_utf8_header) else w)
      else w)"

text \<open>
  \<open>discard_utf8_header\<close>: \<open>memcpy\<close> overwrites the front of the input buffer, which
  \<open>port_init\<close> allocated.
\<close>

definition discard_utf8_header :: "bool \<Rightarrow> fileport_t \<Rightarrow> os \<Rightarrow> fault + (fileport_t \<times> os)" where
  "discard_utf8_header diag p w =
     (case file_ptr p of
        None \<Rightarrow> Inl NullStream
      | Some f \<Rightarrow>
          if sys_tell w f = 0 then
            (let (nbytes0, c, w1) = sys_read w (desc p) 3;
                 nbytes = (if nbytes0 = 3 then
                             (if c ! 0 = 0xef \<and> c ! 1 = 0xbb \<and> c ! 2 = 0xbf then 0 else nbytes0)
                           else nbytes0)
             in if nbytes > 0 then
                  (if diag \<and> \<not> (pos (inb (base p)) = 0 \<and> avail (inb (base p)) = 0)
                   then Inl AssertionFailed
                   else Inr (p\<lparr>base := (base p)\<lparr>inb := (inb (base p))
                                 \<lparr>bytes := take (nat nbytes) c @ drop (nat nbytes) (bytes (inb (base p))),
                                  avail := avail (inb (base p)) + nbytes\<rparr>\<rparr>\<rparr>, w1))
                else Inr (p, w1))
          else Inr (p, w))"

text \<open>The loop of \<open>fileport_init\<close> over the flag arguments; a symbol is known by its name.\<close>

fun fileport_flags :: "string list \<Rightarrow> bool \<times> bool \<Rightarrow> bool \<times> bool" where
  "fileport_flags [] (read_flag, write_flag) = (read_flag, write_flag)"
| "fileport_flags (flag # args) (read_flag, write_flag) =
     (if flag = ''for-reading'' then fileport_flags args (True, write_flag)
      else if flag = ''for-reading'' then fileport_flags args (read_flag, True)
      else fileport_flags args (read_flag, write_flag))"

text \<open>
  \<open>fileport_init\<close>. \<open>port_init\<close> and \<open>muse_fopen\<close> are not in the source files: they
  are the parameters \<open>pinit\<close> (on the base of the port) and \<open>fopen\<close> (path, mode
  string and system to the descriptor of the new \<open>FILE\<close>, or \<open>None\<close>, and the system
  after).
\<close>

definition fileport_init ::
  "(muse_port_base_t \<Rightarrow> muse_port_base_t) \<Rightarrow> (string \<Rightarrow> string \<Rightarrow> os \<Rightarrow> int option \<times> os) \<Rightarrow>
   bool \<Rightarrow> bool \<Rightarrow> fileport_t \<Rightarrow> string \<Rightarrow> string list \<Rightarrow> os \<Rightarrow> fault + (fileport_t \<times> os)" where
  "fileport_init pinit fopen windows diag p filename args w =
     (let (read_flag, write_flag) = fileport_flags args (False, False);
          p1 = (if read_flag then p\<lparr>base := (base p)\<lparr>mode := insert MUSE_PORT_READ (mode (base p))\<rparr>\<rparr> else p);
          p2 = (if write_flag then p1\<lparr>base := (base p1)\<lparr>mode := insert MUSE_PORT_WRITE (mode (base p1))\<rparr>\<rparr> else p1);
          p3 = p2\<lparr>base := pinit (base p2)\<rparr>;
          (f, w1) = fopen filename
                      (if read_flag then (if write_flag then ''rwb'' else ''rb'')
                       else (if write_flag then ''wb'' else ''rb'')) w;
          p4 = p3\<lparr>file_ptr := f\<rparr>
      in case f of
           None \<Rightarrow> Inr (p4, w1)
         | Some d \<Rightarrow>
             (let p5 = p4\<lparr>desc := d\<rparr>;
                  p6 = p5\<lparr>base := (base p5)\<lparr>error := 0, eof := 0\<rparr>\<rparr>;
                  w2 = (if write_flag then write_utf8_header windows p6 w1 else w1)
              in if read_flag then
                   (case discard_utf8_header diag p6 w2 of
                      Inl e \<Rightarrow> Inl e
                    | Inr (p7, w3) \<Rightarrow> Inr (check_for_ezscheme_file p7, w3))
                 else Inr (p6, w2)))"

text \<open>\<open>fileport_read\<close> and \<open>fileport_write\<close>: the count, the bytes read, the system after.\<close>

definition fileport_read :: "nat \<Rightarrow> fileport_t \<Rightarrow> os \<Rightarrow> int \<times> byte list \<times> os" where
  "fileport_read nbytes p w =
     (case file_ptr p of
        Some f \<Rightarrow> sys_read w f nbytes
      | None \<Rightarrow> sys_read w (desc p) nbytes)"

definition fileport_write :: "byte list \<Rightarrow> fileport_t \<Rightarrow> os \<Rightarrow> int \<times> os" where
  "fileport_write buffer p w =
     (case file_ptr p of
        Some f \<Rightarrow> sys_write w f buffer
      | None \<Rightarrow> sys_write w (desc p) buffer)"

text \<open>
  What a reader of the port sees from here on: the bytes waiting in the input buffer,
  then the rest of the stream from its offset.
\<close>

definition port_input :: "fileport_t \<Rightarrow> os \<Rightarrow> byte list" where
  "port_input p w =
     take (nat (avail (inb (base p)))) (drop (nat (pos (inb (base p)))) (bytes (inb (base p))))
     @ (case file_ptr p of
          None \<Rightarrow> []
        | Some f \<Rightarrow> (case w f of None \<Rightarrow> [] | Some s \<Rightarrow> drop (offset s) (content s)))"

text \<open>Closing a stream and opening it again for reading: the same bytes, from offset 0.\<close>

definition reopen_stream :: "os \<Rightarrow> int \<Rightarrow> os" where
  "reopen_stream w d = (case w d of None \<Rightarrow> w | Some s \<Rightarrow> w(d \<mapsto> s\<lparr>offset := 0\<rparr>))"

section \<open>Hash tables (muse\_builtin\_hashtable.c)\<close>

subsection \<open>The cell heap\<close>

text \<open>
  Modelled from the spec: the cell heap is not in the source files. The heap holds the
  pair cells: a handle is mapped to its head and tail. \<open>_cons\<close> is \<open>muse_cons\<close>: it
  hands out the next free handle; \<open>_head\<close>, \<open>_tail\<close> and \<open>_sett\<close> are
  \<open>muse_head\<close>, \<open>muse_tail\<close> and \<open>muse_set_tail\<close>, and on a handle that is no pair
  cell they are a fault. The garbage collector is not modelled.
\<close>

record muse_env =
  cells :: "muse_cell \<Rightarrow> (muse_cell \<times> muse_cell) option"
  free :: muse_cell

definition muse_cons :: "muse_env \<Rightarrow> muse_cell \<Rightarrow> muse_cell \<Rightarrow> muse_cell \<times> muse_env" where
  "muse_cons env h t = (free env, env\<lparr>cells := (cells env)(free env \<mapsto> (h, t)), free := free env + 1\<rparr>)"

definition muse_head :: "muse_env \<Rightarrow> muse_cell \<Rightarrow> fault + muse_cell" where
  "muse_head env c = (case cells env c of None \<Rightarrow> Inl NotACons | Some (h, t) \<Rightarrow> Inr h)"

definition muse_tail :: "muse_env \<Rightarrow> muse_cell \<Rightarrow> fault + muse_cell" where
  "muse_tail env c = (case cells env c of None \<Rightarrow> Inl NotACons | Some (h, t) \<Rightarrow> Inr t)"

definition muse_set_tail :: "muse_env \<Rightarrow> muse_cell \<Rightarrow> muse_cell \<Rightarrow> fault + muse_env" where
  "muse_set_tail env c t' =
     (case cells env c of
        None \<Rightarrow> Inl NotACons
      | Some (h, t) \<Rightarrow> Inr (env\<lparr>cells := (cells env)(c \<mapsto> (h, t'))\<rparr>))"

text \<open>\<open>_evalnext\<close> on a list of already evaluated arguments; past the end it yields \<open>MUSE_NIL\<close>.\<close>

definition muse_evalnext :: "muse_cell list \<Rightarrow> muse_cell \<times> muse_cell list" where
  "muse_evalnext args = (case args of [] \<Rightarrow> (MUSE_NIL, []) | a # rest \<Rightarrow> (a, rest))"

subsection \<open>The table\<close>

record hashtable_t =
  count_h :: int
  bucket_count :: int
  buckets :: "muse_cell list"

text \<open>
  A \<open>muse_cell*\<close> of the table code points at a slot of the bucket array or at the
  tail field of a pair cell.
\<close>

datatype cell_ptr = BucketSlot int | TailField muse_cell

definition deref :: "muse_env \<Rightarrow> hashtable_t \<Rightarrow> cell_ptr \<Rightarrow> fault + muse_cell" where
  "deref env h ptr =
     (case ptr of
        BucketSlot i \<Rightarrow> if 0 \<le> i \<and> nat i < length (buckets h) then Inr (buckets h ! nat i) else Inl BadIndex
      | TailField c \<Rightarrow> muse_tail env c)"

definition assign :: "muse_env \<Rightarrow> hashtable_t \<Rightarrow> cell_ptr \<Rightarrow> muse_cell \<Rightarrow> fault + (muse_env \<times> hashtable_t)" where
  "assign env h ptr v =
     (case ptr of
        BucketSlot i \<Rightarrow>
          if 0 \<le> i \<and> nat i < length (buckets h) then Inr (env, h\<lparr>buckets := (buckets h)[nat i := v]\<rparr>)
          else Inl BadIndex
      | TailField c \<Rightarrow>
          (case muse_set_tail env c v of Inl e \<Rightarrow> Inl e | Inr env' \<Rightarrow> Inr (env', h)))"

text \<open>The block of a new table, zero-initialised by the object constructor.\<close>

definition hashtable_zero :: hashtable_t where
  "hashtable_zero = \<lparr>count_h = 0, bucket_count = 0, buckets = []\<rparr>"

text \<open>\<open>calloc\<close> of \<open>n\<close> cells; for \<open>n \<le> 0\<close> there is no cell to access.\<close>

definition calloc_cells :: "int \<Rightarrow> muse_cell list" where
  "calloc_cells n = replicate (nat n) MUSE_NIL"

definition hashtable_init :: "(muse_cell \<Rightarrow> int) \<Rightarrow> hashtable_t \<Rightarrow> muse_cell list \<Rightarrow> hashtable_t" where
  "hashtable_init iv h args =
     (let h1 = (if args \<noteq> [] then h\<lparr>bucket_count := int_cast (iv (fst (muse_evalnext args)))\<rparr>
                else h\<lparr>bucket_count := 7\<rparr>)
      in h1\<lparr>buckets := calloc_cells (bucket_count h1)\<rparr>)"

definition fn_mk_hashtable :: "(muse_cell \<Rightarrow> int) \<Rightarrow> muse_cell list \<Rightarrow> hashtable_t" where
  "fn_mk_hashtable iv args = hashtable_init iv hashtable_zero args"

text \<open>\<open>%\<close> of C truncates towards zero (\<open>smod\<close>); by zero it is a fault.\<close>

definition bucket_for_hash :: "muse_int \<Rightarrow> int \<Rightarrow> fault + int" where
  "bucket_for_hash hash modulus =
     (if modulus = 0 then Inl DivisionByZero
      else Inr (((hash smod modulus) + modulus) smod modulus))"

text \<open>
  The loops over the pair cells of a bucket follow tail fields for as long as they
  are not \<open>MUSE_NIL\<close>; on a cyclic list they do not return, which is the value
  \<open>None\<close>. A fault is \<open>Some (Inl e)\<close>.

  \<open>muse_hash\<close> is not in the source files: it is the parameter \<open>hashf\<close>, a function of
  the key's handle (the keys of a table are symbols or integers).
\<close>

partial_function (option) rehash_list ::
  "(muse_cell \<Rightarrow> muse_int) \<Rightarrow> int \<Rightarrow> muse_env \<Rightarrow> muse_cell list \<Rightarrow> muse_cell \<Rightarrow>
   (fault + (muse_env \<times> muse_cell list)) option" where
  "rehash_list hashf new_bucket_count env new_buckets alist =
     (if alist = MUSE_NIL then Some (Inr (env, new_buckets))
      else
        (case muse_head env alist of
           Inl e \<Rightarrow> Some (Inl e)
         | Inr kv \<Rightarrow>
        (case muse_head env kv of
           Inl e \<Rightarrow> Some (Inl e)
         | Inr key \<Rightarrow>
        (case bucket_for_hash (hashf key) new_bucket_count of
           Inl e \<Rightarrow> Some (Inl e)
         | Inr new_b \<Rightarrow>
        (case muse_tail env alist of
           Inl e \<Rightarrow> Some (Inl e)
         | Inr next \<Rightarrow>
        (if \<not> (0 \<le> new_b \<and> nat new_b < length new_buckets) then Some (Inl BadIndex)
         else
        (case muse_set_tail env alist (new_buckets ! nat new_b) of
           Inl e \<Rightarrow> Some (Inl e)
         | Inr env1 \<Rightarrow>
             rehash_list hashf new_bucket_count env1 (new_buckets[nat new_b := alist]) next)))))))"

declare rehash_list.simps [code]

text \<open>The loop \<open>for ( ; i < N; ++i )\<close> over the old buckets, from bucket \<open>i\<close> with \<open>n\<close> buckets to go.\<close>

fun rehash_buckets ::
  "(muse_cell \<Rightarrow> muse_int) \<Rightarrow> int \<Rightarrow> muse_cell list \<Rightarrow> nat \<Rightarrow> nat \<Rightarrow> muse_env \<Rightarrow> muse_cell list \<Rightarrow>
   (fault + (muse_env \<times> muse_cell list)) option" where
  "rehash_buckets hashf new_bucket_count old i 0 env new_buckets = Some (Inr (env, new_buckets))"
| "rehash_buckets hashf new_bucket_count old i (Suc n) env new_buckets =
     (if \<not> i < length old then Some (Inl BadIndex)
      else
        (case rehash_list hashf new_bucket_count env new_buckets (old ! i) of
           None \<Rightarrow> None
         | Some (Inl e) \<Rightarrow> Some (Inl e)
         | Some (Inr (env1, new_buckets1)) \<Rightarrow>
             rehash_buckets hashf new_bucket_count old (Suc i) n env1 new_buckets1))"

definition hashtable_rehash ::
  "(muse_cell \<Rightarrow> muse_int) \<Rightarrow> muse_env \<Rightarrow> hashtable_t \<Rightarrow> int \<Rightarrow> (fault + (muse_env \<times> hashtable_t)) option" where
  "hashtable_rehash hashf env h new_bucket_count0 =
     (let new_bucket_count = new_bucket_count0 OR 1;
          new_buckets = calloc_cells new_bucket_count
      in case rehash_buckets hashf new_bucket_count (buckets h) 0 (nat (bucket_count h)) env new_buckets of
           None \<Rightarrow> None
         | Some (Inl e) \<Rightarrow> Some (Inl e)
         | Some (Inr (env1, new_buckets1)) \<Rightarrow>
             Some (Inr (env1, h\<lparr>bucket_count := new_bucket_count, buckets := new_buckets1\<rparr>)))"

text \<open>\<open>hashtable_add\<close> returns the address of the bucket it added to.\<close>

definition hashtable_add ::
  "(muse_cell \<Rightarrow> muse_int) \<Rightarrow> bool \<Rightarrow> muse_env \<Rightarrow> hashtable_t \<Rightarrow> muse_cell \<Rightarrow> muse_cell \<Rightarrow> muse_int option \<Rightarrow>
   (fault + (cell_ptr \<times> muse_env \<times> hashtable_t)) option" where
  "hashtable_add hashf diag env h key val hash_opt =
     (let hash = (case hash_opt of Some x \<Rightarrow> x | None \<Rightarrow> hashf key)
      in case bucket_for_hash hash (bucket_count h) of
           Inl e \<Rightarrow> Some (Inl e)
         | Inr bucket0 \<Rightarrow>
        (case (if int_cast (count_h h + 1) \<ge> int_cast (2 * bucket_count h) then
                 (case hashtable_rehash hashf env h (int_cast (bucket_count h * 2)) of
                    None \<Rightarrow> None
                  | Some (Inl e) \<Rightarrow> Some (Inl e)
                  | Some (Inr (env1, h1)) \<Rightarrow>
                      (case bucket_for_hash hash (bucket_count h1) of
                         Inl e \<Rightarrow> Some (Inl e)
                       | Inr bucket1 \<Rightarrow> Some (Inr (bucket1, env1, h1))))
               else Some (Inr (bucket0, env, h))) of
           None \<Rightarrow> None
         | Some (Inl e) \<Rightarrow> Some (Inl e)
         | Some (Inr (bucket, env1, h1)) \<Rightarrow>
             if diag \<and> \<not> val \<noteq> MUSE_NIL then Some (Inl AssertionFailed)
             else if \<not> (0 \<le> bucket \<and> nat bucket < length (buckets h1)) then Some (Inl BadIndex)
             else
               (let (kv, env2) = muse_cons env1 key val;
                    (c, env3) = muse_cons env2 kv (buckets h1 ! nat bucket);
                    h2 = h1\<lparr>buckets := (buckets h1)[nat bucket := c]\<rparr>;
                    h3 = h2\<lparr>count_h := int_cast (count_h h2 + 1)\<rparr>
                in Some (Inr (BucketSlot bucket, env3, h3)))))"

text \<open>
  Modelled from the spec: \<open>muse_assoc_iter\<close> is not in the source files. It scans the
  association list that \<open>alist\<close> points at for the first pair whose key equals \<open>key\<close>
  and returns the address of the cell variable that holds the list cell of that pair
  (\<open>fn_hashtable\<close> reads the pair as \<open>_head(*kvpair)\<close> and unlinks it with
  \<open>(*kvpair) = _tail(*kvpair)\<close>), or \<open>NULL\<close>. Keys are compared by their handles.
\<close>

partial_function (option) muse_assoc_iter ::
  "muse_env \<Rightarrow> hashtable_t \<Rightarrow> cell_ptr \<Rightarrow> muse_cell \<Rightarrow> (fault + cell_ptr option) option" where
  "muse_assoc_iter env h alist key =
     (case deref env h alist of
        Inl e \<Rightarrow> Some (Inl e)
      | Inr c \<Rightarrow>
          if c = MUSE_NIL then Some (Inr None)
          else
            (case muse_head env c of
               Inl e \<Rightarrow> Some (Inl e)
             | Inr kv \<Rightarrow>
            (case muse_head env kv of
               Inl e \<Rightarrow> Some (Inl e)
             | Inr k \<Rightarrow>
                 if k = key then Some (Inr (Some alist))
                 else muse_assoc_iter env h (TailField c) key)))"

declare muse_assoc_iter.simps [code]

text \<open>\<open>hashtable_get\<close> returns the pointer and, through \<open>hash_out\<close>, the hash.\<close>

definition hashtable_get ::
  "(muse_cell \<Rightarrow> muse_int) \<Rightarrow> muse_env \<Rightarrow> hashtable_t \<Rightarrow> muse_cell \<Rightarrow>
   (fault + (cell_ptr option \<times> muse_int)) option" where
  "hashtable_get hashf env h key =
     (let hash = hashf key
      in case bucket_for_hash hash (bucket_count h) of
           Inl e \<Rightarrow> Some (Inl e)
         | Inr bucket \<Rightarrow>
             (case muse_assoc_iter env h (BucketSlot bucket) key of
                None \<Rightarrow> None
              | Some (Inl e) \<Rightarrow> Some (Inl e)
              | Some (Inr r) \<Rightarrow> Some (Inr (r, hash))))"

text \<open>
  \<open>fn_hashtable\<close>, the call entry point: the result cell, the heap and the table
  after the call.
\<close>

definition fn_hashtable ::
  "(muse_cell \<Rightarrow> muse_int) \<Rightarrow> bool \<Rightarrow> muse_env \<Rightarrow> hashtable_t \<Rightarrow> muse_cell list \<Rightarrow>
   (fault + (muse_cell \<times> muse_env \<times> hashtable_t)) option" where
  "fn_hashtable hashf diag env h args0 =
     (let (key, args) = muse_evalnext args0
      in case hashtable_get hashf env h key of
           None \<Rightarrow> None
         | Some (Inl e) \<Rightarrow> Some (Inl e)
         | Some (Inr (kvpair, hash)) \<Rightarrow>
             if args \<noteq> [] then
               (let (val, args1) = muse_evalnext args
                in case kvpair of
                     Some ptr \<Rightarrow>
                       if val \<noteq> MUSE_NIL then
                         (case deref env h ptr of
                            Inl e \<Rightarrow> Some (Inl e)
                          | Inr c \<Rightarrow>
                         (case muse_head env c of
                            Inl e \<Rightarrow> Some (Inl e)
                          | Inr kv \<Rightarrow>
                         (case muse_set_tail env kv val of
                            Inl e \<Rightarrow> Some (Inl e)
                          | Inr env1 \<Rightarrow> Some (Inr (val, env1, h)))))
                       else
                         (case deref env h ptr of
                            Inl e \<Rightarrow> Some (Inl e)
                          | Inr c \<Rightarrow>
                         (case muse_tail env c of
                            Inl e \<Rightarrow> Some (Inl e)
                          | Inr t \<Rightarrow>
                         (case assign env h ptr t of
                            Inl e \<Rightarrow> Some (Inl e)
                          | Inr (env1, h1) \<Rightarrow>
                              Some (Inr (MUSE_NIL, env1, h1\<lparr>count_h := int_cast (count_h h1 - 1)\<rparr>)))))
                   | None \<Rightarrow>
                       if val \<noteq> MUSE_NIL then
                         (case hashtable_add hashf diag env h key val (Some hash) of
                            None \<Rightarrow> None
                          | Some (Inl e) \<Rightarrow> Some (Inl e)
                          | Some (Inr (b, env1, h1)) \<Rightarrow> Some (Inr (val, env1, h1)))
                       else Some (Inr (MUSE_NIL, env, h)))
             else
               (case kvpair of
                  Some ptr \<Rightarrow>
                    (case deref env h ptr of
                       Inl e \<Rightarrow> Some (Inl e)
                     | Inr c \<Rightarrow>
                    (case muse_head env c of
                       Inl e \<Rightarrow> Some (Inl e)
                     | Inr kv \<Rightarrow>
                    (case muse_tail env kv of
                       Inl e \<Rightarrow> Some (Inl e)
                     | Inr v \<Rightarrow> Some (Inr (v, env, h)))))
                | None \<Rightarrow> Some (Inr (MUSE_NIL, env, h))))"

text \<open>
  \<open>fn_alist_to_hashtable\<close>. Modelled from the spec: \<open>muse_list_to_array\<close> and
  \<open>muse_array_to_list\<close> are not in the source files; together they copy the list
  cells of the association list, keeping its pairs. The argument is given as the
  array \<open>muse_list_to_array\<close> yields: the pair cells of the association list, in
  order. \<open>muse_array_to_list_env\<close> allocates the list cells of the copy.
\<close>

fun muse_array_to_list_env :: "muse_env \<Rightarrow> muse_cell list \<Rightarrow> muse_cell \<times> muse_env" where
  "muse_array_to_list_env env [] = (MUSE_NIL, env)"
| "muse_array_to_list_env env (e # es) =
     (let (t, env1) = muse_array_to_list_env env es in muse_cons env1 e t)"

definition fn_alist_to_hashtable ::
  "(muse_cell \<Rightarrow> muse_int) \<Rightarrow> (muse_cell \<Rightarrow> int) \<Rightarrow> muse_env \<Rightarrow> muse_cell list \<Rightarrow>
   (fault + (muse_env \<times> hashtable_t)) option" where
  "fn_alist_to_hashtable hashf iv env alistarr =
     (let ht = fn_mk_hashtable iv [];
          cnt = int (length alistarr);
          (alist_copy, env1) = muse_array_to_list_env env alistarr;
          h1 = ht\<lparr>count_h := cnt\<rparr>
      in if \<not> 0 < length (buckets h1) then Some (Inl BadIndex)
         else hashtable_rehash hashf env1 (h1\<lparr>buckets := (buckets h1)[0 := alist_copy]\<rparr>) cnt)"

subsection \<open>The representation of a table in the heap\<close>

text \<open>
  \<open>chain env c cs\<close>: the cell \<open>c\<close> heads a list that ends in \<open>MUSE_NIL\<close> and whose
  list cells are, in order, \<open>cs\<close>. The head of a list cell of a bucket is the pair
  cell of a key and its value.
\<close>

primrec chain :: "muse_env \<Rightarrow> muse_cell \<Rightarrow> muse_cell list \<Rightarrow> bool" where
  "chain env c [] \<longleftrightarrow> c = MUSE_NIL"
| "chain env c (x # xs) \<longleftrightarrow>
     c = x \<and> x \<noteq> MUSE_NIL \<and> (case cells env x of None \<Rightarrow> False | Some (p, t) \<Rightarrow> chain env t xs)"

definition key_of :: "muse_env \<Rightarrow> muse_cell \<Rightarrow> muse_cell" where
  "key_of env x =
     (case cells env x of
        None \<Rightarrow> MUSE_NIL
      | Some (p, t) \<Rightarrow> (case cells env p of None \<Rightarrow> MUSE_NIL | Some (k, v) \<Rightarrow> k))"

definition val_of :: "muse_env \<Rightarrow> muse_cell \<Rightarrow> muse_cell" where
  "val_of env x =
     (case cells env x of
        None \<Rightarrow> MUSE_NIL
      | Some (p, t) \<Rightarrow> (case cells env p of None \<Rightarrow> MUSE_NIL | Some (k, v) \<Rightarrow> v))"

definition entries_ok :: "muse_env \<Rightarrow> muse_cell set \<Rightarrow> bool" where
  "entries_ok env T \<longleftrightarrow>
     (\<forall>x\<in>T. case cells env x of None \<Rightarrow> False | Some (p, t) \<Rightarrow> p \<notin> T \<and> cells env p \<noteq> None)"

definition heap_ok :: "muse_env \<Rightarrow> bool" where
  "heap_ok env \<longleftrightarrow> 0 < free env \<and> (\<forall>c. free env \<le> c \<longrightarrow> cells env c = None)"

definition table_shape :: "muse_env \<Rightarrow> muse_cell list \<Rightarrow> muse_cell list list \<Rightarrow> bool" where
  "table_shape env bs ss \<longleftrightarrow>
     length ss = length bs \<and> (\<forall>i<length bs. chain env (bs ! i) (ss ! i))
     \<and> distinct (concat ss) \<and> entries_ok env (set (concat ss))"

definition placed :: "(muse_cell \<Rightarrow> muse_int) \<Rightarrow> int \<Rightarrow> muse_env \<Rightarrow> muse_cell list list \<Rightarrow> bool" where
  "placed hashf m env ss \<longleftrightarrow>
     (\<forall>i<length ss. \<forall>x\<in>set (ss ! i). bucket_for_hash (hashf (key_of env x)) m = Inr (int i))"

definition table_rep ::
  "(muse_cell \<Rightarrow> muse_int) \<Rightarrow> muse_env \<Rightarrow> hashtable_t \<Rightarrow> muse_cell list list \<Rightarrow> bool" where
  "table_rep hashf env h ss \<longleftrightarrow>
     0 < bucket_count h \<and> int (length (buckets h)) = bucket_count h
     \<and> table_shape env (buckets h) ss \<and> placed hashf (bucket_count h) env ss
     \<and> count_h h = int (length (concat ss)) \<and> heap_ok env"

fun scan :: "muse_env \<Rightarrow> cell_ptr \<Rightarrow> muse_cell list \<Rightarrow> muse_cell \<Rightarrow> cell_ptr option" where
  "scan env ptr [] key = None"
| "scan env ptr (x # xs) key = (if key_of env x = key then Some ptr else scan env (TailField x) xs key)"

text \<open>An example heap and table: one bucket with the pairs \<open>(1 . 100)\<close> and \<open>(2 . 200)\<close>.\<close>

definition ex_env :: muse_env where
  "ex_env = \<lparr>cells = [10 \<mapsto> (1, 100), 11 \<mapsto> (2, 200), 20 \<mapsto> (10, 21), 21 \<mapsto> (11, 0)], free = 22\<rparr>"

definition ex_table :: hashtable_t where
  "ex_table = \<lparr>count_h = 2, bucket_count = 1, buckets = [20]\<rparr>"


text \<open>
  The list cell that a lookup of \<open>key\<close> finds: the first cell with that key in the bucket
  the key hashes to; and the value the lookup yields.
\<close>

definition bucket_of :: "(muse_cell \<Rightarrow> muse_int) \<Rightarrow> hashtable_t \<Rightarrow> muse_cell \<Rightarrow> nat" where
  "bucket_of hashf h key = nat (hashf key mod bucket_count h)"

definition ht_find ::
  "(muse_cell \<Rightarrow> muse_int) \<Rightarrow> muse_env \<Rightarrow> hashtable_t \<Rightarrow> muse_cell list list \<Rightarrow> muse_cell \<Rightarrow> muse_cell option" where
  "ht_find hashf env h ss key = find (\<lambda>x. key_of env x = key) (ss ! bucket_of hashf h key)"

definition ht_lookup ::
  "(muse_cell \<Rightarrow> muse_int) \<Rightarrow> muse_env \<Rightarrow> hashtable_t \<Rightarrow> muse_cell list list \<Rightarrow> muse_cell \<Rightarrow> muse_cell" where
  "ht_lookup hashf env h ss key =
     (case ht_find hashf env h ss key of None \<Rightarrow> MUSE_NIL | Some x \<Rightarrow> val_of env x)"

text \<open>No two stored pairs have the same key.\<close>

definition keys_unique :: "muse_env \<Rightarrow> muse_cell list list \<Rightarrow> bool" where
  "keys_unique env ss \<longleftrightarrow> distinct (map (key_of env) (concat ss))"

text \<open>The heap of the association list \<open>((1 . 100) (1 . 200))\<close>: two pairs with the key 1.\<close>

definition dup_env :: muse_env where
  "dup_env = \<lparr>cells = [10 \<mapsto> (1, 100), 11 \<mapsto> (1, 200)], free = 12\<rparr>"

text \<open>
  A sequence of calls of the table, one argument list per call: the heap and the table
  after each call.
\<close>

fun invoke_all ::
  "(muse_cell \<Rightarrow> muse_int) \<Rightarrow> bool \<Rightarrow> muse_env \<Rightarrow> hashtable_t \<Rightarrow> muse_cell list list \<Rightarrow>
   (fault + (muse_env \<times> hashtable_t) list) option" where
  "invoke_all hashf diag env h [] = Some (Inr [])"
| "invoke_all hashf diag env h (args # calls) =
     (case fn_hashtable hashf diag env h args of
        None \<Rightarrow> None
      | Some (Inl e) \<Rightarrow> Some (Inl e)
      | Some (Inr (v, env1, h1)) \<Rightarrow>
          (case invoke_all hashf diag env1 h1 calls of
             None \<Rightarrow> None
           | Some (Inl e) \<Rightarrow> Some (Inl e)
           | Some (Inr sts) \<Rightarrow> Some (Inr ((env1, h1) # sts))))"

text \<open>The empty heap.\<close>

definition empty_env :: muse_env where
  "empty_env = \<lparr>cells = Map.empty, free = 1\<rparr>"

section \<open>Integer conversion\<close>

lemma int_cast_id: "- 2147483648 \<le> x \<Longrightarrow> x < 2147483648 \<Longrightarrow> int_cast x = x"
  by (simp add: int_cast_def)

lemma int_cast_range: "- 2147483648 \<le> int_cast x \<and> int_cast x < 2147483648"
  by (simp add: int_cast_def)

section \<open>Vector properties\<close>

lemma muse_array_to_list_whole:
  "muse_array_to_list (length ys) (xs @ ys) (int (length xs)) 1 = Inr ys"
proof (induction ys arbitrary: xs)
  case Nil
  show ?case by simp
next
  case (Cons y ys)
  have "muse_array_to_list (length ys) ((xs @ [y]) @ ys) (int (length (xs @ [y]))) 1 = Inr ys"
    by (rule Cons.IH)
  then show ?case by (simp add: nth_append add.commute)
qed

lemma vector_to_list_all:
  assumes "vector_ok v"
  shows "fn_vector_to_list iv diag v [] = Inr (slots v)"
proof -
  have len: "nat (length_v v) = length (slots v)" and nn: "0 \<le> length_v v"
    using assms by (auto simp: vector_ok_def)
  have "muse_array_to_list (length (slots v)) ([] @ slots v) (int (length ([] :: muse_cell list))) 1
          = Inr (slots v)"
    by (rule muse_array_to_list_whole)
  then show ?thesis
    using len nn by (simp add: fn_vector_to_list_def)
qed




text \<open>
  C8, as stated, fails at the empty vector: \<open>vector->list\<close> of the vector of length 0
  is the empty list, and \<open>list->vector\<close> of the empty list takes the \<open>else\<close> branch of
  \<open>if ( length > 0 )\<close> and returns \<open>MUSE_NIL\<close>, which is no vector.
\<close>

theorem vector_roundtrip_empty_counterexample:
  "vector_ok (fn_mk_vector (\<lambda>c. c) [0])
   \<and> length_v (fn_mk_vector (\<lambda>c. c) [0]) = 0
   \<and> fn_vector_to_list (\<lambda>c. c) True (fn_mk_vector (\<lambda>c. c) [0]) [] = Inr []
   \<and> fn_list_to_vector (\<lambda>c. c) [] = None
   \<and> fn_list_to_vector (\<lambda>c. c) [] \<noteq> Some (fn_mk_vector (\<lambda>c. c) [0])"
  by (simp add: fn_mk_vector_def vector_init_def vector_init_with_length_def vector_zero_def
      vector_ok_def fn_vector_to_list_def fn_list_to_vector_def muse_list_length_def int_cast_def)

text \<open>
  C8, amended. For every vector of length at least 1, converting it to a list and the
  list back to a vector yields a vector with the same length and the same slots; for
  the empty vector the conversion back yields \<open>MUSE_NIL\<close>.
\<close>

theorem vector_roundtrip:
  assumes "vector_ok v"
  shows "\<exists>l. fn_vector_to_list iv diag v [] = Inr l
           \<and> fn_list_to_vector iv l = (if 0 < length_v v then Some v else None)"
proof -
  have len: "int (length (slots v)) = length_v v"
    using assms by (simp add: vector_ok_def)
  have tl: "fn_vector_to_list iv diag v [] = Inr (slots v)"
    using assms by (rule vector_to_list_all)
  have conv: "fn_list_to_vector iv (slots v) = (if 0 < length_v v then Some v else None)"
  proof (cases "0 < length_v v")
    case True
    have "\<lparr>length_v = length_v v, slots = slots v\<rparr> = v" by simp
    then show ?thesis
      using True len
      by (simp add: fn_list_to_vector_def muse_list_length_def Let_def fn_mk_vector_def
          vector_init_def vector_init_with_length_def vector_zero_def muse_list_extract_def)
  next
    case False
    then show ?thesis
      using len by (simp add: fn_list_to_vector_def muse_list_length_def Let_def)
  qed
  from tl conv show ?thesis by blast
qed

theorem vector_roundtrip_witness:
  "vector_ok \<lparr>length_v = 2, slots = [5, 0]\<rparr>
   \<and> (\<exists>l. fn_vector_to_list (\<lambda>c. c) True \<lparr>length_v = 2, slots = [5, 0]\<rparr> [] = Inr l
         \<and> fn_list_to_vector (\<lambda>c. c) l = Some \<lparr>length_v = 2, slots = [5, 0]\<rparr>)"
proof -
  let ?v = "\<lparr>length_v = 2, slots = [5, 0]\<rparr>"
  have ok: "vector_ok ?v" by (simp add: vector_ok_def)
  from ok vector_roundtrip [OF ok, of "\<lambda>c. c" True] show ?thesis by simp
qed

section \<open>File port properties\<close>

lemma fileport_flags_write: "snd (fileport_flags args (r, False)) = False"
  by (induction args arbitrary: r) auto

lemma fileport_flags_read: "fst (fileport_flags args (r, wr)) = (r \<or> ''for-reading'' \<in> set args)"
  by (induction args arbitrary: r wr) auto

text \<open>
  C4. The claim asks that a port opened with write in the mode has the write flag set
  and its stream opened writable, as the documentation of \<open>open-file\<close> promises
  (\<open>(open-file "output.txt" 'for-writing)\<close>). The loop of \<open>fileport_init\<close> tests
  \<open>for-reading\<close> in both branches, so the write flag is never set: with
  \<open>'for-writing\<close> the mode bits stay empty and the file is opened with \<open>"rb"\<close>
  (here \<open>fopen\<close> answers descriptor 3 for \<open>"rb"\<close> and 4 for \<open>"wb"\<close>).
\<close>

theorem fileport_init_for_writing:
  "fileport_flags [''for-writing''] (False, False) = (False, False)
   \<and> fileport_init (\<lambda>b. b)
        (\<lambda>path m w. (if m = ''wb'' then Some 4 else if m = ''rb'' then Some 3 else None, w))
        False True fileport_zero ''output.txt'' [''for-writing''] Map.empty
       = Inr (fileport_zero\<lparr>desc := 3, file_ptr := Some 3\<rparr>, Map.empty)"
  by (simp add: fileport_init_def fileport_zero_def)

text \<open>
  C5, as stated, fails in its last part. After a failed open the port has no stream
  handle and its descriptor field is still the 0 of the zero-initialised block;
  \<open>fileport_read\<close> and \<open>fileport_write\<close> then take the branch for a null handle and
  call \<open>read\<close> and \<open>write\<close> on descriptor 0: the bytes come from, and go to, the
  stream open there.
\<close>

theorem fileport_read_after_failed_open_counterexample:
  "fileport_init (\<lambda>b. b) (\<lambda>path m w. (None, w)) False True fileport_zero ''missing.txt''
       [''for-reading''] [0 \<mapsto> \<lparr>content = [0x68, 0x69], offset = 0\<rparr>]
     = Inr (fileport_zero\<lparr>base := (base fileport_zero)\<lparr>mode := {MUSE_PORT_READ}\<rparr>\<rparr>,
            [0 \<mapsto> \<lparr>content = [0x68, 0x69], offset = 0\<rparr>])
   \<and> file_ptr (fileport_zero\<lparr>base := (base fileport_zero)\<lparr>mode := {MUSE_PORT_READ}\<rparr>\<rparr>) = None
   \<and> fileport_read 2 (fileport_zero\<lparr>base := (base fileport_zero)\<lparr>mode := {MUSE_PORT_READ}\<rparr>\<rparr>)
        [0 \<mapsto> \<lparr>content = [0x68, 0x69], offset = 0\<rparr>]
     = (2, [0x68, 0x69], [0 \<mapsto> \<lparr>content = [0x68, 0x69], offset = 2\<rparr>])
   \<and> fileport_write [0x21] (fileport_zero\<lparr>base := (base fileport_zero)\<lparr>mode := {MUSE_PORT_READ}\<rparr>\<rparr>)
        [0 \<mapsto> \<lparr>content = [0x68, 0x69], offset = 0\<rparr>]
     = (1, [0 \<mapsto> \<lparr>content = [0x21, 0x69], offset = 1\<rparr>])"
  by (simp add: fileport_init_def fileport_zero_def fileport_read_def fileport_write_def
      sys_read_def sys_write_def Let_def numeral_2_eq_2)

text \<open>
  C5, amended. When the open that \<open>fileport_init\<close> makes fails (the mode string it
  passes is \<open>"rb"\<close> whatever the flags, the write flag never being set),
  \<open>fileport_init\<close> returns normally (nothing is signalled), does no I/O beyond the
  attempt to open, and leaves the port with no stream handle, with its descriptor field
  unchanged, and with its base as \<open>port_init\<close> left it (the mode bits apart, the base
  \<open>port_init\<close> ran on is the one the port had): the reset of the error and
  end-of-stream flags, which follows a successful open, does not happen. Every later
  \<open>fileport_read\<close> and \<open>fileport_write\<close> on the port is the \<open>read\<close> or \<open>write\<close> of the
  system on the descriptor field: the missing stream is not detected.
\<close>

theorem fileport_init_open_fails:
  assumes "fopen filename ''rb'' w = (None, w1)"
  shows "\<exists>p' b. fileport_init pinit fopen windows diag p filename args w = Inr (p', w1)
           \<and> file_ptr p' = None \<and> desc p' = desc p
           \<and> base p' = pinit b
           \<and> inb b = inb (base p) \<and> eof b = eof (base p) \<and> error b = error (base p)
           \<and> (\<forall>n w'. fileport_read n p' w' = sys_read w' (desc p) n)
           \<and> (\<forall>bs w'. fileport_write bs p' w' = sys_write w' (desc p) bs)"
proof -
  obtain r wr where f: "fileport_flags args (False, False) = (r, wr)"
    by (cases "fileport_flags args (False, False)")
  have "wr = False" using fileport_flags_write [of args False] f by simp
  then show ?thesis
    using assms f
    by (auto simp: fileport_init_def fileport_read_def fileport_write_def Let_def)
qed

text \<open>
  A missing file: the open for reading fails (an open for writing would succeed).
  \<open>port_init\<close> here sets both flags to -1.
\<close>

theorem fileport_init_open_fails_witness:
  "(\<lambda>path m w. (if m = ''rb'' then None else Some 4, w)) ''missing.txt'' ''rb'' (Map.empty :: os)
      = (None, Map.empty)
   \<and> (\<exists>p' b. fileport_init (\<lambda>b. b\<lparr>error := -1, eof := -1\<rparr>)
                 (\<lambda>path m w. (if m = ''rb'' then None else Some 4, w)) False True
                 fileport_zero ''missing.txt'' [''for-reading''] Map.empty = Inr (p', Map.empty)
           \<and> file_ptr p' = None \<and> desc p' = 0
           \<and> base p' = b\<lparr>error := -1, eof := -1\<rparr>
           \<and> inb b = inb (base fileport_zero) \<and> eof b = 0 \<and> error b = 0
           \<and> (\<forall>n w'. fileport_read n p' w' = sys_read w' 0 n)
           \<and> (\<forall>bs w'. fileport_write bs p' w' = sys_write w' 0 bs))"
proof -
  have h: "(\<lambda>path m w. (if m = ''rb'' then None else Some 4, w)) ''missing.txt'' ''rb'' (Map.empty :: os)
      = (None, Map.empty)"
    by simp
  have z: "desc fileport_zero = 0" "eof (base fileport_zero) = 0" "error (base fileport_zero) = 0"
    by (simp_all add: fileport_zero_def)
  from fileport_init_open_fails [of "\<lambda>path m w. (if m = ''rb'' then None else Some 4, w)"
      "''missing.txt''" Map.empty Map.empty
      "\<lambda>b. b\<lparr>error := -1, eof := -1\<rparr>" False True fileport_zero "[''for-reading'']", OF h]
  show ?thesis using h z by simp
qed

lemma utf8_hdr_eq:
  "length c = 3 \<Longrightarrow> (c ! 0 = 0xef \<and> c ! 1 = 0xbb \<and> c ! 2 = 0xbf) \<longleftrightarrow> c = k_utf8_header"
  by (cases c; cases "tl c"; cases "tl (tl c)"; auto simp: k_utf8_header_def)

lemma written_content:
  assumes "w d = Some \<lparr>content = [], offset = 0\<rparr>" "file_ptr p = Some d" "desc p = d"
  shows "snd (fileport_write S p (write_utf8_header windows p w)) d
           = Some \<lparr>content = (if windows then k_utf8_header else []) @ S,
                    offset = length ((if windows then k_utf8_header else []) @ S)\<rparr>"
  using assms
  by (simp add: fileport_write_def write_utf8_header_def sys_write_def sys_tell_def)

lemma discard_on_content:
  assumes "w d = Some \<lparr>content = bs, offset = 0\<rparr>" "file_ptr q = Some d" "desc q = d"
    "pos (inb (base q)) = 0" "avail (inb (base q)) = 0"
  shows "\<exists>q' w'. discard_utf8_header diag q w = Inr (q', w')
           \<and> port_input q' w' = (if take 3 bs = k_utf8_header then drop 3 bs else bs)"
proof (cases "take 3 bs = k_utf8_header")
  case True
  then have l: "length (take 3 bs) = 3" by (simp add: k_utf8_header_def)
  show ?thesis
    using assms True l utf8_hdr_eq [OF l]
    by (auto simp: discard_utf8_header_def sys_tell_def sys_read_def Let_def port_input_def min_def
        split: if_splits)
next
  case False
  show ?thesis
  proof (cases "length bs \<ge> 3")
    case True
    then have l: "length (take 3 bs) = 3" by simp
    show ?thesis
      using assms False l utf8_hdr_eq [OF l]
      by (auto simp: discard_utf8_header_def sys_tell_def sys_read_def Let_def port_input_def min_def
          split: if_splits)
  next
    case short: False
    show ?thesis
      using assms False short
      by (auto simp: discard_utf8_header_def sys_tell_def sys_read_def Let_def port_input_def min_def
          split: if_splits)
  qed
qed

text \<open>
  C6, as stated, fails where the writer emits no header (\<open>MUSE_PLATFORM_WINDOWS\<close> not
  defined) and the payload itself begins with the three marker bytes: the file is the
  payload, and on reopening \<open>discard_utf8_header\<close> takes the first three payload
  bytes for a header and drops them. Here the payload \<open>ef bb bf 41\<close> is read back as
  \<open>41\<close>.
\<close>

theorem utf8_header_roundtrip_counterexample:
  "port_input
     (fst (projr (discard_utf8_header True (fileport_zero\<lparr>desc := 3, file_ptr := Some 3\<rparr>)
        (reopen_stream (snd (fileport_write [0xef, 0xbb, 0xbf, 0x41]
           (fileport_zero\<lparr>desc := 3, file_ptr := Some 3\<rparr>)
           (write_utf8_header False (fileport_zero\<lparr>desc := 3, file_ptr := Some 3\<rparr>)
              [3 \<mapsto> \<lparr>content = [], offset = 0\<rparr>]))) 3))))
     (snd (projr (discard_utf8_header True (fileport_zero\<lparr>desc := 3, file_ptr := Some 3\<rparr>)
        (reopen_stream (snd (fileport_write [0xef, 0xbb, 0xbf, 0x41]
           (fileport_zero\<lparr>desc := 3, file_ptr := Some 3\<rparr>)
           (write_utf8_header False (fileport_zero\<lparr>desc := 3, file_ptr := Some 3\<rparr>)
              [3 \<mapsto> \<lparr>content = [], offset = 0\<rparr>]))) 3))))
   = [0x41]"
  by (simp add: discard_utf8_header_def reopen_stream_def fileport_write_def write_utf8_header_def
      fileport_zero_def sys_write_def sys_read_def sys_tell_def port_input_def Let_def)

text \<open>
  C6, amended. A writer port on a fresh stream emits its header (on Windows the
  three marker bytes, elsewhere nothing) and then writes the byte sequence S. On
  reopening the stream for reading, \<open>discard_utf8_header\<close> returns normally, and what
  the reader then sees (the pushed-back bytes in the input buffer, then the rest of
  the stream) is exactly S where the writer emitted the marker, and also where it did
  not and S does not begin with the marker; where no header was written and S begins
  with the marker, it is S without its first three bytes.
\<close>

theorem utf8_header_roundtrip:
  assumes "w d = Some \<lparr>content = [], offset = 0\<rparr>" "file_ptr p = Some d" "desc p = d"
    and "file_ptr q = Some d" "desc q = d" "pos (inb (base q)) = 0" "avail (inb (base q)) = 0"
  shows "\<exists>q' w'.
           discard_utf8_header diag q
             (reopen_stream (snd (fileport_write S p (write_utf8_header windows p w))) d) = Inr (q', w')
           \<and> port_input q' w' = (if windows \<or> take 3 S \<noteq> k_utf8_header then S else drop 3 S)"
proof -
  let ?hdr = "(if windows then k_utf8_header else []) @ S"
  let ?w = "reopen_stream (snd (fileport_write S p (write_utf8_header windows p w))) d"
  have "?w d = Some \<lparr>content = ?hdr, offset = 0\<rparr>"
    using written_content [where w = w and d = d and p = p and S = S and windows = windows, OF assms(1,2,3)]
    by (simp add: reopen_stream_def)
  from discard_on_content [where w = ?w and d = d and q = q and diag = diag, OF this assms(4,5,6,7)]
  obtain q' w' where r: "discard_utf8_header diag q ?w = Inr (q', w')"
    "port_input q' w' = (if take 3 ?hdr = k_utf8_header then drop 3 ?hdr else ?hdr)"
    by blast
  have "(if take 3 ?hdr = k_utf8_header then drop 3 ?hdr else ?hdr)
          = (if windows \<or> take 3 S \<noteq> k_utf8_header then S else drop 3 S)"
    by (simp add: k_utf8_header_def)
  with r show ?thesis by simp
qed

theorem utf8_header_roundtrip_witness:
  "[3 \<mapsto> \<lparr>content = [], offset = 0\<rparr>] 3 = Some \<lparr>content = [], offset = 0\<rparr>
   \<and> file_ptr (fileport_zero\<lparr>desc := 3, file_ptr := Some 3\<rparr>) = Some 3
   \<and> desc (fileport_zero\<lparr>desc := 3, file_ptr := Some 3\<rparr>) = 3
   \<and> pos (inb (base (fileport_zero\<lparr>desc := 3, file_ptr := Some 3\<rparr>))) = 0
   \<and> avail (inb (base (fileport_zero\<lparr>desc := 3, file_ptr := Some 3\<rparr>))) = 0
   \<and> (\<exists>q' w'.
         discard_utf8_header True (fileport_zero\<lparr>desc := 3, file_ptr := Some 3\<rparr>)
           (reopen_stream (snd (fileport_write [0x28, 0x29]
              (fileport_zero\<lparr>desc := 3, file_ptr := Some 3\<rparr>)
              (write_utf8_header True (fileport_zero\<lparr>desc := 3, file_ptr := Some 3\<rparr>)
                 [3 \<mapsto> \<lparr>content = [], offset = 0\<rparr>]))) 3) = Inr (q', w')
         \<and> port_input q' w' = [0x28, 0x29])"
proof -
  let ?p = "fileport_zero\<lparr>desc := 3, file_ptr := Some 3\<rparr>"
  let ?w = "[3 \<mapsto> \<lparr>content = [], offset = 0\<rparr>] :: os"
  have a: "?w 3 = Some \<lparr>content = [], offset = 0\<rparr>" by simp
  have b: "file_ptr ?p = Some 3" and c: "desc ?p = 3" by simp_all
  have d: "pos (inb (base ?p)) = 0" and e: "avail (inb (base ?p)) = 0"
    by (simp_all add: fileport_zero_def)
  from utf8_header_roundtrip [where w = ?w and d = 3 and p = ?p and q = ?p and diag = True
      and S = "[0x28, 0x29]" and windows = True, OF a b c b c d e]
  show ?thesis using a b c d e by simp
qed

section \<open>Hash table properties\<close>

subsection \<open>Bucket indices and lists in the heap\<close>

lemma bucket_for_hash_pos:
  assumes "0 < m"
  shows "bucket_for_hash a m = Inr (a mod m)"
proof -
  have "((a smod m) + m) smod m = a mod m"
  proof (cases "0 \<le> a")
    case True
    then have "a smod m = a mod m" using assms by (simp add: smod_mod_positive)
    moreover have "(a mod m + m) smod m = (a mod m + m) mod m"
      using assms by (simp add: smod_mod_positive)
    ultimately show ?thesis by simp
  next
    case False
    define r where "r = (- a) mod m"
    have b: "0 \<le> r" "r < m" using assms by (simp_all add: r_def)
    have s: "a smod m = - r" using False assms by (simp add: smod_int_alt_def sgn_if r_def)
    have "0 \<le> m - r" using b by simp
    then have "(m - r) smod m = (m - r) mod m"
      using assms by (simp add: smod_mod_positive)
    also have "\<dots> = (- r) mod m" by simp
    also have "\<dots> = a mod m" unfolding r_def by (metis mod_minus_eq minus_minus)
    finally show ?thesis using s by simp
  qed
  then show ?thesis using assms by (simp add: bucket_for_hash_def)
qed

lemma entries_okD:
  assumes "entries_ok env T" "x \<in> T"
  shows "\<exists>p t k v. cells env x = Some (p, t) \<and> p \<notin> T \<and> cells env p = Some (k, v)"
proof -
  from assms have "case cells env x of None \<Rightarrow> False | Some (p, t) \<Rightarrow> p \<notin> T \<and> cells env p \<noteq> None"
    unfolding entries_ok_def by blast
  then show ?thesis by (auto split: option.splits)
qed

lemma chain_frame:
  "chain env c cs \<Longrightarrow> \<forall>x\<in>set cs. cells env' x = cells env x \<Longrightarrow> chain env' c cs"
  by (induction cs arbitrary: c) (auto split: option.splits)

lemma chain_nil [simp]: "chain env MUSE_NIL cs \<longleftrightarrow> cs = []"
  by (cases cs) auto

lemma assoc_iter_scan:
  assumes "chain env c cs" "deref env h ptr = Inr c" "entries_ok env T" "set cs \<subseteq> T"
  shows "muse_assoc_iter env h ptr key = Some (Inr (scan env ptr cs key))"
  using assms
proof (induction cs arbitrary: c ptr)
  case Nil
  then show ?case by (subst muse_assoc_iter.simps) simp
next
  case (Cons x xs)
  from Cons.prems obtain p t where x: "c = x" "x \<noteq> MUSE_NIL" "cells env x = Some (p, t)" "chain env t xs"
    by (auto split: option.splits)
  have "x \<in> T" using Cons.prems(4) by simp
  from entries_okD [OF Cons.prems(3) this] x(3) obtain k v where p: "cells env p = Some (k, v)"
    by force
  have d: "deref env h (TailField x) = Inr t" using x by (simp add: deref_def muse_tail_def)
  have ih: "muse_assoc_iter env h (TailField x) key = Some (Inr (scan env (TailField x) xs key))"
    using Cons.IH [OF x(4) d Cons.prems(3)] Cons.prems(4) by simp
  show ?case
    using Cons.prems(2) x p ih
    by (subst muse_assoc_iter.simps) (simp add: muse_head_def key_of_def)
qed

subsection \<open>Rehashing\<close>

lemma mset_concat_update_cons:
  assumes "i < length ns"
  shows "mset (concat (ns[i := x # ns ! i])) = add_mset x (mset (concat ns))"
proof -
  have a: "ns[i := x # ns ! i] = take i ns @ (x # ns ! i) # drop (Suc i) ns"
    using assms by (rule upd_conv_take_nth_drop)
  have b: "concat ns = concat (take i ns @ (ns ! i) # drop (Suc i) ns)"
    using assms by (simp add: id_take_nth_drop [symmetric])
  show ?thesis by (subst b, subst a) simp
qed

lemma set_nth_concat: "i < length ns \<Longrightarrow> set (ns ! i) \<subseteq> set (concat ns)"
  using nth_mem by fastforce

lemma chain_frame1:
  assumes "chain env c cs" "y \<notin> set cs" "\<And>z. z \<noteq> y \<Longrightarrow> cells env' z = cells env z"
  shows "chain env' c cs"
proof (rule chain_frame [OF assms(1)])
  show "\<forall>x\<in>set cs. cells env' x = cells env x" using assms(2,3) by metis
qed

lemma key_of_frame:
  assumes "cells env x = Some (p, t)" "map_option fst (cells env' x) = Some p" "cells env' p = cells env p"
  shows "key_of env' x = key_of env x" "val_of env' x = val_of env x"
  using assms by (auto simp: key_of_def val_of_def split: option.splits)

lemma rehash_list_spec:
  assumes "chain env alist cs"
    and "length ns = length nb" "\<forall>j<length nb. chain env (nb ! j) (ns ! j)"
    and "distinct (cs @ concat ns)"
    and "\<forall>x\<in>set cs. \<exists>p t k v. cells env x = Some (p, t) \<and> p \<notin> set cs \<and> cells env p = Some (k, v)"
    and "0 < m" "length nb = nat m"
  shows "\<exists>env' nb' ns'. rehash_list hashf m env nb alist = Some (Inr (env', nb'))
        \<and> length nb' = length nb \<and> length ns' = length nb
        \<and> (\<forall>j<length nb. chain env' (nb' ! j) (ns' ! j))
        \<and> mset (concat ns') = mset cs + mset (concat ns)
        \<and> (\<forall>j<length nb. \<forall>x\<in>set (ns' ! j). x \<in> set (ns ! j) \<or> (x \<in> set cs \<and> hashf (key_of env x) mod m = int j))
        \<and> (\<forall>c. c \<notin> set cs \<longrightarrow> cells env' c = cells env c)
        \<and> (\<forall>c. map_option fst (cells env' c) = map_option fst (cells env c))
        \<and> free env' = free env"
  using assms
proof (induction cs arbitrary: env nb ns alist)
  case Nil
  then show ?case by (subst rehash_list.simps) auto
next
  case (Cons x xs)
  from Cons.prems(1) obtain p t where x: "alist = x" "x \<noteq> MUSE_NIL" "cells env x = Some (p, t)"
    "chain env t xs"
    by (auto split: option.splits)
  from Cons.prems(5) x(3) obtain k v where p: "cells env p = Some (k, v)" "p \<notin> set (x # xs)"
    by force
  define b where "b = nat (hashf k mod m)"
  have bm: "bucket_for_hash (hashf k) m = Inr (hashf k mod m)"
    using Cons.prems(6) by (rule bucket_for_hash_pos)
  have b_lt: "b < length nb" "0 \<le> hashf k mod m" "int b = hashf k mod m"
    using Cons.prems(6,7) by (simp_all add: b_def nat_less_iff)
  define env1 where "env1 = env\<lparr>cells := (cells env)(x \<mapsto> (p, nb ! b))\<rparr>"
  define nb1 where "nb1 = nb[b := x]"
  define ns1 where "ns1 = ns[b := x # ns ! b]"
  have kx: "key_of env x = k" using x p by (simp add: key_of_def)
  have x_notin: "x \<notin> set xs" "x \<notin> set (concat ns)" using Cons.prems(4) by auto
  have fr1: "\<And>c. c \<noteq> x \<Longrightarrow> cells env1 c = cells env c" by (simp add: env1_def)
  have c1: "chain env1 t xs"
    using x(4) x_notin(1) fr1 by (rule chain_frame1)
  have l1: "length ns1 = length nb1" using Cons.prems(2) by (simp add: ns1_def nb1_def)
  have ch1: "\<forall>j<length nb1. chain env1 (nb1 ! j) (ns1 ! j)"
  proof (intro allI impI)
    fix j assume j: "j < length nb1"
    then have jl: "j < length nb" "j < length ns" using Cons.prems(2) by (simp_all add: nb1_def)
    have old: "chain env (nb ! j) (ns ! j)" using Cons.prems(3) jl by simp
    have "x \<notin> set (ns ! j)" using x_notin(2) set_nth_concat [OF jl(2)] by auto
    then have fr: "chain env1 (nb ! j) (ns ! j)"
      using old fr1 by (intro chain_frame1 [OF old])
    show "chain env1 (nb1 ! j) (ns1 ! j)"
    proof (cases "j = b")
      case True
      then show ?thesis using fr jl x(2) by (simp add: nb1_def ns1_def env1_def)
    next
      case False
      then show ?thesis using fr jl by (simp add: nb1_def ns1_def)
    qed
  qed
  have ms1: "mset (concat ns1) = add_mset x (mset (concat ns))"
    unfolding ns1_def using b_lt(1) Cons.prems(2) by (intro mset_concat_update_cons) simp
  have d1: "distinct (xs @ concat ns1)"
  proof -
    have "mset (xs @ concat ns1) = mset ((x # xs) @ concat ns)" using ms1 by simp
    then show ?thesis using Cons.prems(4) by (metis mset_eq_imp_distinct_iff)
  qed
  have e1: "\<forall>y\<in>set xs. \<exists>p t k v. cells env1 y = Some (p, t) \<and> p \<notin> set xs \<and> cells env1 p = Some (k, v)"
  proof
    fix y assume y: "y \<in> set xs"
    with Cons.prems(5) obtain py ty ky vy where
      py: "cells env y = Some (py, ty)" "py \<notin> set (x # xs)" "cells env py = Some (ky, vy)"
      by force
    have "y \<noteq> x" using y x_notin(1) by auto
    then show "\<exists>p t k v. cells env1 y = Some (p, t) \<and> p \<notin> set xs \<and> cells env1 p = Some (k, v)"
      using py fr1 by auto
  qed
  have l7: "length nb1 = nat m" using Cons.prems(7) by (simp add: nb1_def)
  from Cons.IH [OF c1 l1 ch1 d1 e1 Cons.prems(6) l7]
  obtain env' nb' ns' where r:
    "rehash_list hashf m env1 nb1 t = Some (Inr (env', nb'))"
    "length nb' = length nb1" "length ns' = length nb1"
    "\<forall>j<length nb1. chain env' (nb' ! j) (ns' ! j)"
    "mset (concat ns') = mset xs + mset (concat ns1)"
    "\<forall>j<length nb1. \<forall>y\<in>set (ns' ! j). y \<in> set (ns1 ! j) \<or> (y \<in> set xs \<and> hashf (key_of env1 y) mod m = int j)"
    "\<forall>c. c \<notin> set xs \<longrightarrow> cells env' c = cells env1 c"
    "\<forall>c. map_option fst (cells env' c) = map_option fst (cells env1 c)"
    "free env' = free env1"
    by blast
  have step: "rehash_list hashf m env nb alist = rehash_list hashf m env1 nb1 t"
    using x p bm b_lt Cons.prems(6)
    by (subst rehash_list.simps)
       (simp add: muse_head_def muse_tail_def muse_set_tail_def env1_def nb1_def b_def)
  have kk: "\<And>y. y \<in> set xs \<Longrightarrow> key_of env1 y = key_of env y"
  proof -
    fix y assume y: "y \<in> set xs"
    with Cons.prems(5) obtain py ty ky vy where
      py: "cells env y = Some (py, ty)" "py \<notin> set (x # xs)" "cells env py = Some (ky, vy)"
      by force
    have "y \<noteq> x" "py \<noteq> x" using y x_notin(1) py(2) by auto
    then show "key_of env1 y = key_of env y"
      using py fr1 by (simp add: key_of_def)
  qed
  have place: "\<forall>j<length nb. \<forall>y\<in>set (ns' ! j). y \<in> set (ns ! j) \<or> (y \<in> set (x # xs) \<and> hashf (key_of env y) mod m = int j)"
  proof (intro allI impI ballI)
    fix j y assume j: "j < length nb" and y: "y \<in> set (ns' ! j)"
    have jl: "j < length nb1" "j < length ns" using j Cons.prems(2) by (simp_all add: nb1_def)
    from r(6) jl(1) y have "y \<in> set (ns1 ! j) \<or> (y \<in> set xs \<and> hashf (key_of env1 y) mod m = int j)"
      by blast
    then show "y \<in> set (ns ! j) \<or> (y \<in> set (x # xs) \<and> hashf (key_of env y) mod m = int j)"
    proof
      assume a: "y \<in> set (ns1 ! j)"
      show ?thesis
      proof (cases "j = b")
        case True
        then show ?thesis using a jl kx b_lt(3) by (auto simp: ns1_def)
      next
        case False
        then show ?thesis using a jl by (simp add: ns1_def)
      qed
    next
      assume "y \<in> set xs \<and> hashf (key_of env1 y) mod m = int j"
      then show ?thesis using kk by auto
    qed
  qed
  have frame: "\<forall>c. c \<notin> set (x # xs) \<longrightarrow> cells env' c = cells env c"
    using r(7) fr1 by auto
  have heads: "\<forall>c. map_option fst (cells env' c) = map_option fst (cells env c)"
    using r(8) x(3) by (auto simp: env1_def)
  have "rehash_list hashf m env nb alist = Some (Inr (env', nb'))
        \<and> length nb' = length nb \<and> length ns' = length nb
        \<and> (\<forall>j<length nb. chain env' (nb' ! j) (ns' ! j))
        \<and> mset (concat ns') = mset (x # xs) + mset (concat ns)"
    using step r(1-5) ms1 by (simp add: nb1_def)
  moreover have "free env' = free env" using r(9) by (simp add: env1_def)
  ultimately show ?case using place frame heads by blast
qed

lemma entries_ok_preserved:
  assumes "entries_ok env T" "\<forall>c. c \<notin> T \<longrightarrow> cells env' c = cells env c"
    "\<forall>c. map_option fst (cells env' c) = map_option fst (cells env c)"
  shows "entries_ok env' T"
  unfolding entries_ok_def
proof
  fix x assume "x \<in> T"
  from entries_okD [OF assms(1) this] obtain p t k v where
    x: "cells env x = Some (p, t)" "p \<notin> T" "cells env p = Some (k, v)" by blast
  from assms(3) x(1) have "map_option fst (cells env' x) = Some p" by simp
  then obtain t' where "cells env' x = Some (p, t')" by auto
  moreover have "cells env' p = cells env p" using assms(2) x(2) by simp
  ultimately show "case cells env' x of None \<Rightarrow> False | Some (p, t) \<Rightarrow> p \<notin> T \<and> cells env' p \<noteq> None"
    using x by simp
qed

lemma key_val_preserved:
  assumes "entries_ok env T" "x \<in> T" "\<forall>c. c \<notin> T \<longrightarrow> cells env' c = cells env c"
    "\<forall>c. map_option fst (cells env' c) = map_option fst (cells env c)"
  shows "key_of env' x = key_of env x \<and> val_of env' x = val_of env x"
proof -
  from entries_okD [OF assms(1,2)] obtain p t k v where
    x: "cells env x = Some (p, t)" "p \<notin> T" "cells env p = Some (k, v)" by blast
  from assms(4) x(1) have "map_option fst (cells env' x) = Some p" by simp
  moreover have "cells env' p = cells env p" using assms(3) x(2) by simp
  ultimately show ?thesis using key_of_frame [OF x(1)] by simp
qed

lemma rehash_buckets_spec:
  assumes "length ss = length old" "\<forall>k. i \<le> k \<and> k < length old \<longrightarrow> chain env (old ! k) (ss ! k)"
    and "length ns = length nb" "\<forall>j<length nb. chain env (nb ! j) (ns ! j)"
    and "distinct (concat (drop i ss) @ concat ns)"
    and "entries_ok env T" "set (concat (drop i ss)) \<subseteq> T"
    and "0 < m" "length nb = nat m" "i + n = length old"
  shows "\<exists>env' nb' ns'. rehash_buckets hashf m old i n env nb = Some (Inr (env', nb'))
        \<and> length nb' = length nb \<and> length ns' = length nb
        \<and> (\<forall>j<length nb. chain env' (nb' ! j) (ns' ! j))
        \<and> mset (concat ns') = mset (concat (drop i ss)) + mset (concat ns)
        \<and> (\<forall>j<length nb. \<forall>x\<in>set (ns' ! j). x \<in> set (ns ! j)
              \<or> (x \<in> set (concat (drop i ss)) \<and> hashf (key_of env x) mod m = int j))
        \<and> (\<forall>c. c \<notin> set (concat (drop i ss)) \<longrightarrow> cells env' c = cells env c)
        \<and> (\<forall>c. map_option fst (cells env' c) = map_option fst (cells env c))
        \<and> free env' = free env"
  using assms
proof (induction n arbitrary: i env nb ns)
  case 0
  have "rehash_buckets hashf m old i 0 env nb = Some (Inr (env, nb))
        \<and> length nb = length nb \<and> length ns = length nb
        \<and> (\<forall>j<length nb. chain env (nb ! j) (ns ! j))
        \<and> mset (concat ns) = mset (concat (drop i ss)) + mset (concat ns)"
    using 0 by simp
  then show ?case by blast
next
  case (Suc n)
  have i: "i < length old" "i < length ss" using Suc.prems(1,10) by simp_all
  define cs where "cs = ss ! i"
  define rest where "rest = concat (drop (Suc i) ss)"
  have dr: "concat (drop i ss) = cs @ rest"
    using i(2) by (simp add: cs_def rest_def Cons_nth_drop_Suc [symmetric])
  have c0: "chain env (old ! i) cs" using Suc.prems(2) i by (simp add: cs_def)
  have d0: "distinct (cs @ concat ns)" using Suc.prems(5) dr by auto
  have csT: "set cs \<subseteq> T" "set rest \<subseteq> T" using Suc.prems(7) dr by auto
  have e0: "\<forall>x\<in>set cs. \<exists>p t k v. cells env x = Some (p, t) \<and> p \<notin> set cs \<and> cells env p = Some (k, v)"
  proof
    fix x assume "x \<in> set cs"
    then have "x \<in> T" using csT by auto
    from entries_okD [OF Suc.prems(6) this] csT
    show "\<exists>p t k v. cells env x = Some (p, t) \<and> p \<notin> set cs \<and> cells env p = Some (k, v)" by blast
  qed
  from rehash_list_spec [OF c0 Suc.prems(3,4) d0 e0 Suc.prems(8,9), of hashf]
  obtain env1 nb1 ns1 where r1:
    "rehash_list hashf m env nb (old ! i) = Some (Inr (env1, nb1))"
    "length nb1 = length nb" "length ns1 = length nb"
    "\<forall>j<length nb. chain env1 (nb1 ! j) (ns1 ! j)"
    "mset (concat ns1) = mset cs + mset (concat ns)"
    "\<forall>j<length nb. \<forall>x\<in>set (ns1 ! j). x \<in> set (ns ! j) \<or> (x \<in> set cs \<and> hashf (key_of env x) mod m = int j)"
    "\<forall>c. c \<notin> set cs \<longrightarrow> cells env1 c = cells env c"
    "\<forall>c. map_option fst (cells env1 c) = map_option fst (cells env c)"
    "free env1 = free env"
    by blast
  have fT: "\<forall>c. c \<notin> T \<longrightarrow> cells env1 c = cells env c" using r1(7) csT by auto
  have ch: "\<forall>k. Suc i \<le> k \<and> k < length old \<longrightarrow> chain env1 (old ! k) (ss ! k)"
  proof (intro allI impI)
    fix k assume k: "Suc i \<le> k \<and> k < length old"
    then have old: "chain env (old ! k) (ss ! k)" using Suc.prems(2) by simp
    have "k - Suc i < length (drop (Suc i) ss)" using k Suc.prems(1) by auto
    from set_nth_concat [OF this] have "set (ss ! k) \<subseteq> set rest"
      using k Suc.prems(1) by (auto simp: rest_def)
    moreover have "set cs \<inter> set rest = {}" using Suc.prems(5) dr by auto
    ultimately have "\<forall>x\<in>set (ss ! k). cells env1 x = cells env x" using r1(7) by blast
    then show "chain env1 (old ! k) (ss ! k)" by (rule chain_frame [OF old])
  qed
  have l1: "length ns1 = length nb1" using r1(2,3) by simp
  have ch1: "\<forall>j<length nb1. chain env1 (nb1 ! j) (ns1 ! j)" using r1(2,4) by simp
  have d1: "distinct (concat (drop (Suc i) ss) @ concat ns1)"
  proof -
    have "mset (rest @ concat ns1) = mset ((cs @ rest) @ concat ns)" using r1(5) by simp
    then have "distinct (rest @ concat ns1) = distinct ((cs @ rest) @ concat ns)"
      by (rule mset_eq_imp_distinct_iff)
    then show ?thesis using Suc.prems(5) dr by (simp add: rest_def)
  qed
  have e1: "entries_ok env1 T" using Suc.prems(6) fT r1(8) by (rule entries_ok_preserved)
  have s1: "set (concat (drop (Suc i) ss)) \<subseteq> T" using csT by (simp add: rest_def)
  have l9: "length nb1 = nat m" using r1(2) Suc.prems(9) by simp
  have n1: "Suc i + n = length old" using Suc.prems(10) by simp
  from Suc.IH [OF Suc.prems(1) ch l1 ch1 d1 e1 s1 Suc.prems(8) l9 n1]
  obtain env' nb' ns' where r:
    "rehash_buckets hashf m old (Suc i) n env1 nb1 = Some (Inr (env', nb'))"
    "length nb' = length nb1" "length ns' = length nb1"
    "\<forall>j<length nb1. chain env' (nb' ! j) (ns' ! j)"
    "mset (concat ns') = mset (concat (drop (Suc i) ss)) + mset (concat ns1)"
    "\<forall>j<length nb1. \<forall>x\<in>set (ns' ! j). x \<in> set (ns1 ! j)
        \<or> (x \<in> set (concat (drop (Suc i) ss)) \<and> hashf (key_of env1 x) mod m = int j)"
    "\<forall>c. c \<notin> set (concat (drop (Suc i) ss)) \<longrightarrow> cells env' c = cells env1 c"
    "\<forall>c. map_option fst (cells env' c) = map_option fst (cells env1 c)"
    "free env' = free env1"
    by blast
  have step: "rehash_buckets hashf m old i (Suc n) env nb = Some (Inr (env', nb'))"
    using i r1(1) r(1) by simp
  have ms: "mset (concat ns') = mset (concat (drop i ss)) + mset (concat ns)"
    using r(5) r1(5) dr by (simp add: rest_def)
  have place: "\<forall>j<length nb. \<forall>x\<in>set (ns' ! j). x \<in> set (ns ! j)
              \<or> (x \<in> set (concat (drop i ss)) \<and> hashf (key_of env x) mod m = int j)"
  proof (intro allI impI ballI)
    fix j x assume j: "j < length nb" and x: "x \<in> set (ns' ! j)"
    from r(6) j x r1(2) have "x \<in> set (ns1 ! j)
        \<or> (x \<in> set rest \<and> hashf (key_of env1 x) mod m = int j)"
      by (simp add: rest_def)
    then show "x \<in> set (ns ! j) \<or> (x \<in> set (concat (drop i ss)) \<and> hashf (key_of env x) mod m = int j)"
    proof
      assume "x \<in> set (ns1 ! j)"
      then show ?thesis using r1(6) j dr by auto
    next
      assume a: "x \<in> set rest \<and> hashf (key_of env1 x) mod m = int j"
      then have "x \<in> T" using csT by auto
      from key_val_preserved [OF Suc.prems(6) this fT r1(8)] a dr show ?thesis by simp
    qed
  qed
  have frame: "\<forall>c. c \<notin> set (concat (drop i ss)) \<longrightarrow> cells env' c = cells env c"
    using r(7) r1(7) dr by (simp add: rest_def)
  have heads: "\<forall>c. map_option fst (cells env' c) = map_option fst (cells env c)"
    using r(8) r1(8) by simp
  have "length nb' = length nb \<and> length ns' = length nb \<and> (\<forall>j<length nb. chain env' (nb' ! j) (ns' ! j))
        \<and> free env' = free env"
    using r(2,3,4,9) r1(2,9) by simp
  with step ms place frame heads show ?case by blast
qed

lemma or_one_pos: "0 \<le> (n::int) \<Longrightarrow> 0 < n OR 1"
proof -
  assume "0 \<le> n"
  then have "0 \<le> n OR 1" by simp
  moreover have "odd (n OR 1)" by (simp add: even_or_iff)
  then have "n OR 1 \<noteq> 0" by (metis even_zero)
  ultimately show ?thesis by linarith
qed

lemma scan_find:
  assumes "chain env c cs" "deref env h ptr = Inr c"
  shows "case find (\<lambda>x. key_of env x = key) cs of
           None \<Rightarrow> scan env ptr cs key = None
         | Some x \<Rightarrow> \<exists>q. scan env ptr cs key = Some q \<and> deref env h q = Inr x"
  using assms
proof (induction cs arbitrary: c ptr)
  case Nil
  then show ?case by simp
next
  case (Cons x xs)
  from Cons.prems(1) obtain p t where x: "c = x" "cells env x = Some (p, t)" "chain env t xs"
    by (auto split: option.splits)
  have d: "deref env h (TailField x) = Inr t" using x by (simp add: deref_def muse_tail_def)
  show ?case
  proof (cases "key_of env x = key")
    case True
    then show ?thesis using Cons.prems(2) x by simp
  next
    case False
    then show ?thesis using Cons.IH [OF x(3) d] by (auto split: option.splits)
  qed
qed

lemma hashtable_get_spec:
  assumes "0 < bucket_count h" "int (length (buckets h)) = bucket_count h"
    "table_shape env (buckets h) ss"
  shows "hashtable_get hashf env h key =
           Some (Inr (scan env (BucketSlot (hashf key mod bucket_count h))
                        (ss ! nat (hashf key mod bucket_count h)) key, hashf key))"
proof -
  define b where "b = hashf key mod bucket_count h"
  have b: "0 \<le> b" "nat b < length (buckets h)" using assms(1,2) by (simp_all add: b_def nat_less_iff)
  have bf: "bucket_for_hash (hashf key) (bucket_count h) = Inr b"
    unfolding b_def using assms(1) by (rule bucket_for_hash_pos)
  have c: "chain env (buckets h ! nat b) (ss ! nat b)" using assms(3) b by (simp add: table_shape_def)
  have d: "deref env h (BucketSlot b) = Inr (buckets h ! nat b)" using b by (simp add: deref_def)
  have e: "entries_ok env (set (concat ss))" using assms(3) by (simp add: table_shape_def)
  have "nat b < length ss" using assms(3) b by (simp add: table_shape_def)
  from set_nth_concat [OF this] have s: "set (ss ! nat b) \<subseteq> set (concat ss)" .
  from assoc_iter_scan [OF c d e s]
  show ?thesis using bf by (simp add: hashtable_get_def b_def Let_def)
qed

lemma hashtable_rehash_spec:
  assumes "table_shape env (buckets h) ss" "int (length (buckets h)) = bucket_count h" "0 \<le> n0"
  shows "\<exists>env' h' ss'. hashtable_rehash hashf env h n0 = Some (Inr (env', h'))
      \<and> bucket_count h' = n0 OR 1 \<and> int (length (buckets h')) = bucket_count h'
      \<and> count_h h' = count_h h
      \<and> table_shape env' (buckets h') ss' \<and> placed hashf (bucket_count h') env' ss'
      \<and> mset (concat ss') = mset (concat ss)
      \<and> (\<forall>c. c \<notin> set (concat ss) \<longrightarrow> cells env' c = cells env c)
      \<and> (\<forall>c. map_option fst (cells env' c) = map_option fst (cells env c))
      \<and> free env' = free env"
proof -
  define m where "m = n0 OR 1"
  define nb where "nb = calloc_cells m"
  define ns where "ns = replicate (nat m) ([] :: muse_cell list)"
  define T where "T = set (concat ss)"
  have m: "0 < m" unfolding m_def using assms(3) by (rule or_one_pos)
  have a1: "length ss = length (buckets h)" using assms(1) by (simp add: table_shape_def)
  have a2: "\<forall>k. 0 \<le> k \<and> k < length (buckets h) \<longrightarrow> chain env (buckets h ! k) (ss ! k)"
    using assms(1) by (simp add: table_shape_def)
  have a3: "length ns = length nb" by (simp add: ns_def nb_def calloc_cells_def)
  have a4: "\<forall>j<length nb. chain env (nb ! j) (ns ! j)"
    by (simp add: ns_def nb_def calloc_cells_def)
  have cn: "concat ns = []" by (simp add: ns_def)
  have eq0: "concat (drop 0 ss) @ concat ns = concat ss" by (simp only: cn drop_0 append_Nil2)
  have "distinct (concat ss)" using assms(1) by (simp add: table_shape_def)
  then have a5: "distinct (concat (drop 0 ss) @ concat ns)" by (simp only: eq0)
  have a6: "entries_ok env T" using assms(1) by (simp add: table_shape_def T_def)
  have a7: "set (concat (drop 0 ss)) \<subseteq> T" by (simp add: T_def)
  have a9: "length nb = nat m" by (simp add: nb_def calloc_cells_def)
  have a10: "0 + nat (bucket_count h) = length (buckets h)" using assms(2) by simp
  from rehash_buckets_spec [OF a1 a2 a3 a4 a5 a6 a7 m a9 a10, of hashf]
  obtain env' nb' ss' where r:
    "rehash_buckets hashf m (buckets h) 0 (nat (bucket_count h)) env nb = Some (Inr (env', nb'))"
    "length nb' = length nb" "length ss' = length nb"
    "\<forall>j<length nb. chain env' (nb' ! j) (ss' ! j)"
    "mset (concat ss') = mset (concat (drop 0 ss)) + mset (concat ns)"
    "\<forall>j<length nb. \<forall>x\<in>set (ss' ! j). x \<in> set (ns ! j)
        \<or> (x \<in> set (concat (drop 0 ss)) \<and> hashf (key_of env x) mod m = int j)"
    "\<forall>c. c \<notin> set (concat (drop 0 ss)) \<longrightarrow> cells env' c = cells env c"
    "\<forall>c. map_option fst (cells env' c) = map_option fst (cells env c)"
    "free env' = free env"
    by blast
  define h' where "h' = h\<lparr>bucket_count := m, buckets := nb'\<rparr>"
  have res: "hashtable_rehash hashf env h n0 = Some (Inr (env', h'))"
    using r(1) by (simp add: hashtable_rehash_def Let_def m_def [symmetric] nb_def [symmetric] h'_def)
  have ms: "mset (concat ss') = mset (concat ss)" using r(5) by (simp only: cn drop_0 mset.simps add_0_right)
  then have seteq: "set (concat ss') = T" unfolding T_def by (metis set_mset_mset)
  have fT: "\<forall>c. c \<notin> T \<longrightarrow> cells env' c = cells env c" using r(7) by (simp add: T_def)
  have e': "entries_ok env' T" using a6 fT r(8) by (rule entries_ok_preserved)
  have dist: "distinct (concat ss')"
    using ms assms(1) by (metis mset_eq_imp_distinct_iff table_shape_def)
  have shape: "table_shape env' (buckets h') ss'"
    using r(2,3,4) dist e' seteq by (simp add: table_shape_def h'_def)
  have pl: "placed hashf (bucket_count h') env' ss'"
    unfolding placed_def
  proof (intro allI impI ballI)
    fix i x assume i: "i < length ss'" and x: "x \<in> set (ss' ! i)"
    have il: "i < length nb" using i r(3) by simp
    then have "x \<notin> set (ns ! i)" using a9 by (simp add: ns_def)
    with r(6) il x have k: "x \<in> set (concat ss)" "hashf (key_of env x) mod m = int i" by auto
    from key_val_preserved [OF a6 _ fT r(8), of x] k(1) have "key_of env' x = key_of env x"
      by (simp add: T_def)
    then show "bucket_for_hash (hashf (key_of env' x)) (bucket_count h') = Inr (int i)"
      using bucket_for_hash_pos [OF m, of "hashf (key_of env x)"] k(2) by (simp add: h'_def)
  qed
  have "bucket_count h' = n0 OR 1 \<and> int (length (buckets h')) = bucket_count h' \<and> count_h h' = count_h h"
    using r(2) a9 m assms(3) by (simp add: h'_def m_def)
  with res shape pl ms r(7,8,9) show ?thesis by (simp add: T_def) blast
qed

lemma in_concat_nth:
  assumes "x \<in> set (concat ss)"
  shows "\<exists>j<length ss. x \<in> set (ss ! j)"
proof -
  from assms obtain ys where ys: "ys \<in> set ss" "x \<in> set ys" by auto
  from ys(1) obtain j where "j < length ss" "ss ! j = ys" by (metis in_set_conv_nth)
  with ys(2) show ?thesis by auto
qed

lemma find_Some_prop: "find P xs = Some x \<Longrightarrow> P x \<and> x \<in> set xs"
  by (induction xs) (auto split: if_splits)

lemma find_None_prop: "find P xs = None \<Longrightarrow> x \<in> set xs \<Longrightarrow> \<not> P x"
  by (induction xs) (auto split: if_splits)



subsection \<open>Lookup and update in place\<close>

lemma table_rep_bucket:
  assumes "table_rep hashf env h ss"
  shows "0 \<le> hashf key mod bucket_count h"
    and "bucket_of hashf h key < length (buckets h)"
    and "bucket_of hashf h key < length ss"
    and "int (bucket_of hashf h key) = hashf key mod bucket_count h"
    and "bucket_for_hash (hashf key) (bucket_count h) = Inr (hashf key mod bucket_count h)"
    and "chain env (buckets h ! bucket_of hashf h key) (ss ! bucket_of hashf h key)"
    and "set (ss ! bucket_of hashf h key) \<subseteq> set (concat ss)"
proof -
  have m: "0 < bucket_count h" and l: "int (length (buckets h)) = bucket_count h"
    and sh: "table_shape env (buckets h) ss"
    using assms by (simp_all add: table_rep_def)
  show a: "0 \<le> hashf key mod bucket_count h" using m by simp
  show b: "bucket_of hashf h key < length (buckets h)"
    using m l by (simp add: bucket_of_def nat_less_iff)
  show c: "bucket_of hashf h key < length ss" using b sh by (simp add: table_shape_def)
  show "int (bucket_of hashf h key) = hashf key mod bucket_count h" using a by (simp add: bucket_of_def)
  show "bucket_for_hash (hashf key) (bucket_count h) = Inr (hashf key mod bucket_count h)"
    using m by (rule bucket_for_hash_pos)
  show "chain env (buckets h ! bucket_of hashf h key) (ss ! bucket_of hashf h key)"
    using sh b by (simp add: table_shape_def)
  show "set (ss ! bucket_of hashf h key) \<subseteq> set (concat ss)" using c by (rule set_nth_concat)
qed

lemma get_absent:
  assumes "table_rep hashf env h ss" "ht_find hashf env h ss key = None"
  shows "hashtable_get hashf env h key = Some (Inr (None, hashf key))"
proof -
  have m: "0 < bucket_count h" and l: "int (length (buckets h)) = bucket_count h"
    and sh: "table_shape env (buckets h) ss"
    using assms(1) by (simp_all add: table_rep_def)
  note b = table_rep_bucket [OF assms(1), of key]
  have d: "deref env h (BucketSlot (hashf key mod bucket_count h)) = Inr (buckets h ! bucket_of hashf h key)"
    using b(1,2) by (simp add: deref_def bucket_of_def)
  from scan_find [OF b(6) d, of key] assms(2)
  have "scan env (BucketSlot (hashf key mod bucket_count h)) (ss ! bucket_of hashf h key) key = None"
    by (simp add: ht_find_def)
  then show ?thesis
    using hashtable_get_spec [OF m l sh, of hashf key] by (simp add: bucket_of_def)
qed

lemma get_found:
  assumes "table_rep hashf env h ss" "ht_find hashf env h ss key = Some x"
  shows "\<exists>q p t v. hashtable_get hashf env h key = Some (Inr (Some q, hashf key))
           \<and> deref env h q = Inr x \<and> cells env x = Some (p, t) \<and> cells env p = Some (key, v)
           \<and> x \<in> set (ss ! bucket_of hashf h key) \<and> p \<notin> set (concat ss)
           \<and> scan env (BucketSlot (hashf key mod bucket_count h)) (ss ! bucket_of hashf h key) key = Some q"
proof -
  have m: "0 < bucket_count h" and l: "int (length (buckets h)) = bucket_count h"
    and sh: "table_shape env (buckets h) ss"
    using assms(1) by (simp_all add: table_rep_def)
  note b = table_rep_bucket [OF assms(1), of key]
  have d: "deref env h (BucketSlot (hashf key mod bucket_count h)) = Inr (buckets h ! bucket_of hashf h key)"
    using b(1,2) by (simp add: deref_def bucket_of_def)
  have f: "find (\<lambda>x. key_of env x = key) (ss ! bucket_of hashf h key) = Some x"
    using assms(2) by (simp add: ht_find_def)
  from scan_find [OF b(6) d, of key] obtain q where
    q: "scan env (BucketSlot (hashf key mod bucket_count h)) (ss ! bucket_of hashf h key) key = Some q"
       "deref env h q = Inr x"
    unfolding f by auto
  from find_Some_prop [OF f] have x: "key_of env x = key" "x \<in> set (ss ! bucket_of hashf h key)"
    by simp_all
  then have xT: "x \<in> set (concat ss)" using b(7) by auto
  have e: "entries_ok env (set (concat ss))" using sh by (simp add: table_shape_def)
  from entries_okD [OF e xT] obtain p t k v where
    p: "cells env x = Some (p, t)" "p \<notin> set (concat ss)" "cells env p = Some (k, v)" by blast
  have "k = key" using x(1) p by (simp add: key_of_def)
  moreover have "hashtable_get hashf env h key = Some (Inr (Some q, hashf key))"
    using hashtable_get_spec [OF m l sh, of hashf key] q(1) by (simp add: bucket_of_def)
  ultimately show ?thesis using q p x(2) by blast
qed

lemma fn_hashtable_lookup:
  assumes "table_rep hashf env h ss"
  shows "fn_hashtable hashf diag env h [key] = Some (Inr (ht_lookup hashf env h ss key, env, h))"
proof (cases "ht_find hashf env h ss key")
  case None
  from get_absent [OF assms None] show ?thesis
    using None by (simp add: fn_hashtable_def muse_evalnext_def ht_lookup_def)
next
  case (Some x)
  from get_found [OF assms Some] obtain q p t v where
    r: "hashtable_get hashf env h key = Some (Inr (Some q, hashf key))"
       "deref env h q = Inr x" "cells env x = Some (p, t)" "cells env p = Some (key, v)"
    by blast
  have "val_of env x = v" using r(3,4) by (simp add: val_of_def)
  then show ?thesis
    using Some r by (simp add: fn_hashtable_def muse_evalnext_def ht_lookup_def muse_head_def muse_tail_def)
qed

lemma heap_ok_lt: "heap_ok env \<Longrightarrow> cells env c \<noteq> None \<Longrightarrow> c < free env"
  unfolding heap_ok_def by (metis not_le)

lemma entries_ok_set_pair:
  assumes "entries_ok env T" "p \<notin> T" "cells env p \<noteq> None"
  shows "entries_ok (env\<lparr>cells := (cells env)(p \<mapsto> kv)\<rparr>) T"
  unfolding entries_ok_def
proof
  fix x assume x: "x \<in> T"
  from entries_okD [OF assms(1) x] obtain px t k v where
    "cells env x = Some (px, t)" "px \<notin> T" "cells env px = Some (k, v)" by blast
  then show "case cells (env\<lparr>cells := (cells env)(p \<mapsto> kv)\<rparr>) x of None \<Rightarrow> False
       | Some (pa, t) \<Rightarrow> pa \<notin> T \<and> cells (env\<lparr>cells := (cells env)(p \<mapsto> kv)\<rparr>) pa \<noteq> None"
    using assms(2) x by auto
qed

lemma fn_hashtable_update:
  assumes "table_rep hashf env h ss" "ht_find hashf env h ss key = Some x" "val \<noteq> MUSE_NIL"
  shows "\<exists>env'. fn_hashtable hashf diag env h (key # val # rest) = Some (Inr (val, env', h))
           \<and> table_rep hashf env' h ss
           \<and> (\<forall>y. key_of env' y = key_of env y)
           \<and> (\<forall>y. key_of env y \<noteq> key \<longrightarrow> val_of env' y = val_of env y)
           \<and> val_of env' x = val
           \<and> free env' = free env"
proof -
  from get_found [OF assms(1,2)] obtain q p t v where
    r: "hashtable_get hashf env h key = Some (Inr (Some q, hashf key))"
       "deref env h q = Inr x" "cells env x = Some (p, t)" "cells env p = Some (key, v)"
       "x \<in> set (ss ! bucket_of hashf h key)" "p \<notin> set (concat ss)"
    by blast
  define env' where "env' = env\<lparr>cells := (cells env)(p \<mapsto> (key, val))\<rparr>"
  have res: "fn_hashtable hashf diag env h (key # val # rest) = Some (Inr (val, env', h))"
    using r assms(3)
    by (simp add: fn_hashtable_def muse_evalnext_def muse_head_def muse_set_tail_def env'_def)
  have sh: "table_shape env (buckets h) ss" and pl: "placed hashf (bucket_count h) env ss"
    and hp: "heap_ok env"
    using assms(1) by (simp_all add: table_rep_def)
  have fr: "\<And>c. c \<noteq> p \<Longrightarrow> cells env' c = cells env c" by (simp add: env'_def)
  have keys: "\<forall>y. key_of env' y = key_of env y"
  proof
    fix y show "key_of env' y = key_of env y"
      using r(4) by (auto simp: key_of_def env'_def split: option.splits)
  qed
  have vals: "\<forall>y. key_of env y \<noteq> key \<longrightarrow> val_of env' y = val_of env y"
  proof (intro allI impI)
    fix y assume "key_of env y \<noteq> key"
    then show "val_of env' y = val_of env y"
      using r(4) by (auto simp: key_of_def val_of_def env'_def split: option.splits)
  qed
  have xp: "x \<noteq> p" using r(5,6) table_rep_bucket(7) [OF assms(1), of key] by auto
  have vx: "val_of env' x = val" using r(3) xp by (simp add: val_of_def env'_def)
  have sh': "table_shape env' (buckets h) ss"
    unfolding table_shape_def
  proof (intro conjI allI impI)
    show "length ss = length (buckets h)" using sh by (simp add: table_shape_def)
    show "distinct (concat ss)" using sh by (simp add: table_shape_def)
    show "entries_ok env' (set (concat ss))"
      unfolding env'_def using sh r(6,4) by (intro entries_ok_set_pair) (simp_all add: table_shape_def)
  next
    fix i assume i: "i < length (buckets h)"
    then have c: "chain env (buckets h ! i) (ss ! i)" using sh by (simp add: table_shape_def)
    have "i < length ss" using i sh by (simp add: table_shape_def)
    from set_nth_concat [OF this] r(6) have "p \<notin> set (ss ! i)" by auto
    then show "chain env' (buckets h ! i) (ss ! i)" using fr by (intro chain_frame1 [OF c])
  qed
  have pl': "placed hashf (bucket_count h) env' ss" using pl keys by (simp add: placed_def)
  have hp': "heap_ok env'" using hp r(4) heap_ok_lt [OF hp, of p] by (auto simp: heap_ok_def env'_def)
  have "table_rep hashf env' h ss" using assms(1) sh' pl' hp' by (simp add: table_rep_def)
  moreover have "free env' = free env" by (simp add: env'_def)
  ultimately show ?thesis using res keys vals vx by blast
qed

subsection \<open>Deletion\<close>

lemma unlink_tail:
  assumes "chain env t0 cs" "distinct (y # cs)" "cells env y = Some (py, t0)"
    "scan env (TailField y) cs key = Some q" "find (\<lambda>x. key_of env x = key) cs = Some x"
  shows "\<exists>t env'. muse_tail env x = Inr t \<and> assign env h q t = Inr (env', h)
     \<and> (\<exists>t0'. cells env' y = Some (py, t0') \<and> chain env' t0' (remove1 x cs))
     \<and> (\<forall>z. z \<notin> set (y # cs) \<longrightarrow> cells env' z = cells env z)
     \<and> (\<forall>z. map_option fst (cells env' z) = map_option fst (cells env z))
     \<and> free env' = free env"
  using assms
proof (induction cs arbitrary: y py t0)
  case Nil
  then show ?case by simp
next
  case (Cons x1 xs)
  from Cons.prems(1) obtain p1 t1 where x1: "t0 = x1" "x1 \<noteq> MUSE_NIL" "cells env x1 = Some (p1, t1)"
    "chain env t1 xs"
    by (auto split: option.splits)
  show ?case
  proof (cases "key_of env x1 = key")
    case True
    then have q: "q = TailField y" "x = x1" using Cons.prems(4,5) by simp_all
    define env' where "env' = env\<lparr>cells := (cells env)(y \<mapsto> (py, t1))\<rparr>"
    have "y \<notin> set xs" using Cons.prems(2) by simp
    moreover have "\<And>z. z \<noteq> y \<Longrightarrow> cells env' z = cells env z" by (simp add: env'_def)
    ultimately have c: "chain env' t1 xs" by (rule chain_frame1 [OF x1(4)])
    have "muse_tail env x = Inr t1 \<and> assign env h q t1 = Inr (env', h)
      \<and> cells env' y = Some (py, t1) \<and> chain env' t1 (remove1 x (x1 # xs))
      \<and> free env' = free env"
      using q x1 Cons.prems(3) c
      by (simp add: muse_tail_def assign_def muse_set_tail_def env'_def)
    moreover have "\<forall>z. z \<notin> set (y # x1 # xs) \<longrightarrow> cells env' z = cells env z"
      by (simp add: env'_def)
    moreover have "\<forall>z. map_option fst (cells env' z) = map_option fst (cells env z)"
      using Cons.prems(3) by (simp add: env'_def)
    ultimately show ?thesis by blast
  next
    case False
    then have s: "scan env (TailField x1) xs key = Some q" "find (\<lambda>x. key_of env x = key) xs = Some x"
      using Cons.prems(4,5) by simp_all
    have d: "distinct (x1 # xs)" using Cons.prems(2) by simp
    from Cons.IH [OF x1(4) d x1(3) s]
    obtain t env' t1' where r: "muse_tail env x = Inr t" "assign env h q t = Inr (env', h)"
      "cells env' x1 = Some (p1, t1')" "chain env' t1' (remove1 x xs)"
      "\<forall>z. z \<notin> set (x1 # xs) \<longrightarrow> cells env' z = cells env z"
      "\<forall>z. map_option fst (cells env' z) = map_option fst (cells env z)"
      "free env' = free env"
      by blast
    have "y \<notin> set (x1 # xs)" using Cons.prems(2) by simp
    then have y: "cells env' y = Some (py, x1)" using r(5) Cons.prems(3) x1(1) by simp
    have "key_of env x = key" using find_Some_prop [OF s(2)] by simp
    then have "x \<noteq> x1" using False by auto
    then have "chain env' x1 (remove1 x (x1 # xs))" using r(3,4) x1(2) by simp
    moreover have "\<forall>z. z \<notin> set (y # x1 # xs) \<longrightarrow> cells env' z = cells env z" using r(5) by simp
    ultimately show ?thesis using r(1,2,6,7) y by blast
  qed
qed

lemma unlink_bucket:
  assumes "chain env (buckets h ! b) cs" "distinct cs" "b < length (buckets h)"
    "scan env (BucketSlot (int b)) cs key = Some q" "find (\<lambda>x. key_of env x = key) cs = Some x"
  shows "\<exists>t env' h'. muse_tail env x = Inr t \<and> assign env h q t = Inr (env', h')
     \<and> chain env' (buckets h' ! b) (remove1 x cs)
     \<and> length (buckets h') = length (buckets h) \<and> (\<forall>j. j \<noteq> b \<longrightarrow> buckets h' ! j = buckets h ! j)
     \<and> bucket_count h' = bucket_count h \<and> count_h h' = count_h h
     \<and> (\<forall>z. z \<notin> set cs \<longrightarrow> cells env' z = cells env z)
     \<and> (\<forall>z. map_option fst (cells env' z) = map_option fst (cells env z))
     \<and> free env' = free env"
proof (cases cs)
  case Nil
  then show ?thesis using assms(4) by simp
next
  case (Cons x1 xs)
  from assms(1) Cons obtain p1 t1 where x1: "buckets h ! b = x1" "x1 \<noteq> MUSE_NIL"
    "cells env x1 = Some (p1, t1)" "chain env t1 xs"
    by (auto split: option.splits)
  show ?thesis
  proof (cases "key_of env x1 = key")
    case True
    then have q: "q = BucketSlot (int b)" "x = x1" using assms(4,5) Cons by simp_all
    define h' where "h' = h\<lparr>buckets := (buckets h)[b := t1]\<rparr>"
    have "muse_tail env x = Inr t1 \<and> assign env h q t1 = Inr (env, h')
     \<and> chain env (buckets h' ! b) (remove1 x cs)
     \<and> length (buckets h') = length (buckets h) \<and> (\<forall>j. j \<noteq> b \<longrightarrow> buckets h' ! j = buckets h ! j)
     \<and> bucket_count h' = bucket_count h \<and> count_h h' = count_h h"
      using q x1 assms(3) Cons by (simp add: muse_tail_def assign_def h'_def)
    then show ?thesis by blast
  next
    case False
    then have s: "scan env (TailField x1) xs key = Some q" "find (\<lambda>x. key_of env x = key) xs = Some x"
      using assms(4,5) Cons by simp_all
    have d: "distinct (x1 # xs)" using assms(2) Cons by simp
    from unlink_tail [OF x1(4) d x1(3) s, of h]
    obtain t env' t1' where r: "muse_tail env x = Inr t" "assign env h q t = Inr (env', h)"
      "cells env' x1 = Some (p1, t1')" "chain env' t1' (remove1 x xs)"
      "\<forall>z. z \<notin> set (x1 # xs) \<longrightarrow> cells env' z = cells env z"
      "\<forall>z. map_option fst (cells env' z) = map_option fst (cells env z)"
      "free env' = free env"
      by blast
    have "key_of env x = key" using find_Some_prop [OF s(2)] by simp
    then have "x \<noteq> x1" using False by auto
    then have "chain env' (buckets h ! b) (remove1 x cs)" using r(3,4) x1(1,2) Cons by simp
    moreover have "\<forall>z. z \<notin> set cs \<longrightarrow> cells env' z = cells env z" using r(5) Cons by simp
    ultimately show ?thesis using r(1,2,6,7) by blast
  qed
qed

lemma distinct_concat_nth:
  assumes "distinct (concat ss)" "i < length ss"
  shows "distinct (ss ! i)"
proof -
  have "concat ss = concat (take i ss) @ ss ! i @ concat (drop (Suc i) ss)"
    using assms(2) by (metis concat.simps(2) concat_append id_take_nth_drop)
  then show ?thesis using assms(1) by simp
qed

lemma distinct_concat_disjoint_lt:
  assumes "distinct (concat ss)" "i < j" "j < length ss"
  shows "set (ss ! i) \<inter> set (ss ! j) = {}"
proof -
  have i: "i < length ss" using assms(2,3) by simp
  have e: "concat ss = concat (take i ss) @ ss ! i @ concat (drop (Suc i) ss)"
    using i by (metis concat.simps(2) concat_append id_take_nth_drop)
  have "j - Suc i < length (drop (Suc i) ss)" using assms(2,3) by auto
  from set_nth_concat [OF this] have "set (ss ! j) \<subseteq> set (concat (drop (Suc i) ss))"
    using assms(2,3) by auto
  moreover have "set (ss ! i) \<inter> set (concat (drop (Suc i) ss)) = {}"
    using assms(1) unfolding e by auto
  ultimately show ?thesis by blast
qed

lemma distinct_concat_disjoint:
  assumes "distinct (concat ss)" "i \<noteq> j" "i < length ss" "j < length ss"
  shows "set (ss ! i) \<inter> set (ss ! j) = {}"
proof (cases "i < j")
  case True
  then show ?thesis using assms by (intro distinct_concat_disjoint_lt)
next
  case False
  then have "j < i" using assms(2) by simp
  from distinct_concat_disjoint_lt [OF assms(1) this assms(3)] show ?thesis by blast
qed

lemma mset_concat_update:
  assumes "i < length ss"
  shows "mset (concat (ss[i := ys])) + mset (ss ! i) = mset (concat ss) + mset ys"
proof -
  have a: "ss[i := ys] = take i ss @ ys # drop (Suc i) ss"
    using assms by (rule upd_conv_take_nth_drop)
  have b: "concat ss = concat (take i ss @ (ss ! i) # drop (Suc i) ss)"
    using assms by (simp add: id_take_nth_drop [symmetric])
  show ?thesis by (subst b, subst a) simp
qed

lemma distinct_mset_sub:
  assumes "mset ys \<subseteq># mset xs" "distinct xs"
  shows "distinct ys"
proof -
  have "\<And>a. count (mset ys) a \<le> 1"
  proof -
    fix a
    have "count (mset ys) a \<le> count (mset xs) a" using assms(1) by (simp add: mset_subset_eq_count)
    moreover have "count (mset xs) a \<le> 1" using assms(2) by (simp add: distinct_count_atmost_1)
    ultimately show "count (mset ys) a \<le> 1" by simp
  qed
  then show ?thesis
    unfolding distinct_count_atmost_1
    by (metis count_mset_0_iff le_neq_implies_less less_one)
qed

lemma entries_ok_subset: "entries_ok env T \<Longrightarrow> T' \<subseteq> T \<Longrightarrow> entries_ok env T'"
  unfolding entries_ok_def by (fastforce split: option.splits)

lemma entries_ok_dom: "entries_ok env T \<Longrightarrow> x \<in> T \<Longrightarrow> cells env x \<noteq> None"
  using entries_okD by fastforce

lemma heap_ok_frame:
  assumes "heap_ok env" "entries_ok env T" "\<forall>c. c \<notin> T \<longrightarrow> cells env' c = cells env c"
    "free env' = free env"
  shows "heap_ok env'"
  unfolding heap_ok_def
proof (intro conjI allI impI)
  show "0 < free env'" using assms(1,4) by (simp add: heap_ok_def)
  fix c assume c: "free env' \<le> c"
  then have n: "cells env c = None" using assms(1,4) by (simp add: heap_ok_def)
  then have "c \<notin> T" using entries_ok_dom [OF assms(2)] by blast
  then show "cells env' c = None" using assms(3) n by simp
qed

lemma fn_hashtable_delete:
  assumes "table_rep hashf env h ss" "ht_find hashf env h ss key = Some x"
    "count_h h < 2147483647"
  shows "\<exists>env' h'. fn_hashtable hashf diag env h (key # MUSE_NIL # rest) = Some (Inr (MUSE_NIL, env', h'))
      \<and> table_rep hashf env' h' (ss[bucket_of hashf h key := remove1 x (ss ! bucket_of hashf h key)])
      \<and> bucket_count h' = bucket_count h \<and> count_h h' = count_h h - 1
      \<and> (\<forall>y\<in>set (concat ss). key_of env' y = key_of env y \<and> val_of env' y = val_of env y)
      \<and> free env' = free env"
proof -
  define b where "b = bucket_of hashf h key"
  define cs where "cs = ss ! b"
  define T where "T = set (concat ss)"
  note bk = table_rep_bucket [OF assms(1), of key, folded b_def]
  have sh: "table_shape env (buckets h) ss" and pl: "placed hashf (bucket_count h) env ss"
    and hp: "heap_ok env" and cnt: "count_h h = int (length (concat ss))"
    and m: "0 < bucket_count h" and len: "int (length (buckets h)) = bucket_count h"
    using assms(1) by (simp_all add: table_rep_def)
  have dist: "distinct (concat ss)" and e: "entries_ok env T" and lss: "length ss = length (buckets h)"
    using sh by (simp_all add: table_shape_def T_def)
  from get_found [OF assms(1,2)] obtain q p t v where
    r: "hashtable_get hashf env h key = Some (Inr (Some q, hashf key))"
       "deref env h q = Inr x" "cells env x = Some (p, t)" "x \<in> set cs"
       "scan env (BucketSlot (hashf key mod bucket_count h)) cs key = Some q"
    unfolding cs_def b_def by blast
  have sc: "scan env (BucketSlot (int b)) cs key = Some q" using r(5) bk(4) by simp
  have f: "find (\<lambda>x. key_of env x = key) cs = Some x"
    using assms(2) by (simp add: ht_find_def cs_def b_def)
  have c0: "chain env (buckets h ! b) cs" using bk(6) by (simp add: cs_def)
  have d0: "distinct cs" unfolding cs_def using dist bk(3) by (rule distinct_concat_nth)
  from unlink_bucket [OF c0 d0 bk(2) sc f]
  obtain t' env' h' where u: "muse_tail env x = Inr t'" "assign env h q t' = Inr (env', h')"
     "chain env' (buckets h' ! b) (remove1 x cs)"
     "length (buckets h') = length (buckets h)" "\<forall>j. j \<noteq> b \<longrightarrow> buckets h' ! j = buckets h ! j"
     "bucket_count h' = bucket_count h" "count_h h' = count_h h"
     "\<forall>z. z \<notin> set cs \<longrightarrow> cells env' z = cells env z"
     "\<forall>z. map_option fst (cells env' z) = map_option fst (cells env z)"
     "free env' = free env"
    by blast
  define h2 where "h2 = h'\<lparr>count_h := count_h h' - 1\<rparr>"
  define ss' where "ss' = ss[b := remove1 x cs]"
  have "- 2147483648 \<le> count_h h' - 1" "count_h h' - 1 < 2147483648"
    using cnt u(7) assms(3) by simp_all
  then have ic: "int_cast (count_h h' - 1) = count_h h' - 1" by (rule int_cast_id)
  have res: "fn_hashtable hashf diag env h (key # MUSE_NIL # rest) = Some (Inr (MUSE_NIL, env', h2))"
    using r(1,2) u(1,2) by (simp add: fn_hashtable_def muse_evalnext_def h2_def ic)
  have csT: "set cs \<subseteq> T" using bk(7) by (simp add: cs_def T_def)
  have fT: "\<forall>c. c \<notin> T \<longrightarrow> cells env' c = cells env c" using u(8) csT by auto
  have e': "entries_ok env' T" using e fT u(9) by (rule entries_ok_preserved)
  have kv: "\<forall>y\<in>set (concat ss). key_of env' y = key_of env y \<and> val_of env' y = val_of env y"
  proof
    fix y assume "y \<in> set (concat ss)"
    then have "y \<in> T" by (simp add: T_def)
    from key_val_preserved [OF e this fT u(9)]
    show "key_of env' y = key_of env y \<and> val_of env' y = val_of env y" .
  qed
  have ms: "mset (concat ss') + mset cs = mset (concat ss) + mset (remove1 x cs)"
    unfolding ss'_def cs_def using bk(3) by (rule mset_concat_update)
  have rm: "mset cs = add_mset x (mset (remove1 x cs))" using r(4) by simp
  have ms2: "add_mset x (mset (concat ss')) = mset (concat ss)"
    using ms unfolding rm by simp
  have sub: "mset (concat ss') \<subseteq># mset (concat ss)"
    unfolding ms2 [symmetric] by simp
  have dist': "distinct (concat ss')"
    using sub dist by (rule distinct_mset_sub)
  have setsub: "set (concat ss') \<subseteq> T"
    unfolding T_def using sub by (metis set_mset_mono set_mset_mset)
  have l': "length (concat ss) = Suc (length (concat ss'))"
    using ms2 by (metis size_add_mset size_mset)
  have nth': "\<And>j. j < length ss \<Longrightarrow> set (ss' ! j) \<subseteq> set (ss ! j)"
  proof -
    fix j assume "j < length ss"
    then show "set (ss' ! j) \<subseteq> set (ss ! j)"
      using set_remove1_subset [of x cs] by (cases "j = b") (auto simp: ss'_def cs_def)
  qed
  have sh': "table_shape env' (buckets h2) ss'"
    unfolding table_shape_def
  proof (intro conjI allI impI)
    show "length ss' = length (buckets h2)" using lss u(4) by (simp add: ss'_def h2_def)
    show "distinct (concat ss')" by (rule dist')
    show "entries_ok env' (set (concat ss'))" using e' setsub by (rule entries_ok_subset)
  next
    fix i assume i: "i < length (buckets h2)"
    then have il: "i < length (buckets h)" "i < length ss" using u(4) lss by (simp_all add: h2_def)
    show "chain env' (buckets h2 ! i) (ss' ! i)"
    proof (cases "i = b")
      case True
      then show ?thesis using u(3) il by (simp add: h2_def ss'_def)
    next
      case False
      have c: "chain env (buckets h ! i) (ss ! i)" using sh il by (simp add: table_shape_def)
      have "set (ss ! i) \<inter> set cs = {}"
        unfolding cs_def using dist False il(2) bk(3) by (rule distinct_concat_disjoint)
      then have "\<forall>z\<in>set (ss ! i). cells env' z = cells env z" using u(8) by blast
      from chain_frame [OF c this] show ?thesis using False u(5) by (simp add: h2_def ss'_def)
    qed
  qed
  have pl': "placed hashf (bucket_count h2) env' ss'"
    unfolding placed_def
  proof (intro allI impI ballI)
    fix i y assume i: "i < length ss'" and y: "y \<in> set (ss' ! i)"
    have il: "i < length ss" using i by (simp add: ss'_def)
    from nth' [OF il] y have y0: "y \<in> set (ss ! i)" by auto
    then have "y \<in> set (concat ss)" using set_nth_concat [OF il] by auto
    with kv have "key_of env' y = key_of env y" by blast
    moreover have "bucket_for_hash (hashf (key_of env y)) (bucket_count h) = Inr (int i)"
      using pl il y0 unfolding placed_def by blast
    ultimately show "bucket_for_hash (hashf (key_of env' y)) (bucket_count h2) = Inr (int i)"
      using u(6) by (simp add: h2_def)
  qed
  have hp': "heap_ok env'" using hp e fT u(10) by (rule heap_ok_frame)
  have "table_rep hashf env' h2 ss'"
    using sh' pl' hp' m len u(4,6,7) cnt l' by (simp add: table_rep_def h2_def)
  moreover have "bucket_count h2 = bucket_count h \<and> count_h h2 = count_h h - 1"
    using u(6,7) by (simp add: h2_def)
  ultimately show ?thesis using res kv u(10) unfolding ss'_def cs_def b_def by blast
qed

subsection \<open>Insertion\<close>

lemma add_cells:
  assumes "table_rep hashf env h ss"
    and "b = bucket_of hashf h key" "kv = free env" "c = free env + 1"
    and "env3 = env\<lparr>cells := (cells env)(kv \<mapsto> (key, val), c \<mapsto> (kv, buckets h ! b)), free := free env + 2\<rparr>"
    and "h3 = h\<lparr>buckets := (buckets h)[b := c], count_h := count_h h + 1\<rparr>"
  shows "table_rep hashf env3 h3 (ss[b := c # ss ! b])"
    and "key_of env3 c = key" and "val_of env3 c = val"
    and "\<forall>y\<in>set (concat ss). key_of env3 y = key_of env y \<and> val_of env3 y = val_of env y"
    and "c \<notin> set (concat ss)"
proof -
  define T where "T = set (concat ss)"
  note bk = table_rep_bucket [OF assms(1), of key, folded assms(2)]
  have sh: "table_shape env (buckets h) ss" and pl: "placed hashf (bucket_count h) env ss"
    and hp: "heap_ok env" and cnt: "count_h h = int (length (concat ss))"
    and m: "0 < bucket_count h" and len: "int (length (buckets h)) = bucket_count h"
    using assms(1) by (simp_all add: table_rep_def)
  have dist: "distinct (concat ss)" and e: "entries_ok env T" and lss: "length ss = length (buckets h)"
    using sh by (simp_all add: table_shape_def T_def)
  have fp: "0 < free env" and fresh: "cells env kv = None" "cells env c = None"
    using hp assms(3,4) by (simp_all add: heap_ok_def)
  have kc: "kv \<noteq> c" "c \<noteq> MUSE_NIL" using assms(3,4) fp by (simp_all add: MUSE_NIL_def)
  have notT: "kv \<notin> T" "c \<notin> T" using fresh entries_ok_dom [OF e] by blast+
  show cT: "c \<notin> set (concat ss)" using notT by (simp add: T_def)
  have fr: "\<And>z. z \<noteq> kv \<Longrightarrow> z \<noteq> c \<Longrightarrow> cells env3 z = cells env z" by (simp add: assms(5))
  have frT: "\<And>z. z \<in> T \<Longrightarrow> cells env3 z = cells env z" using fr notT by metis
  have frD: "\<And>z. cells env z \<noteq> None \<Longrightarrow> cells env3 z = cells env z" using fr fresh by metis
  have c3: "cells env3 c = Some (kv, buckets h ! b)" "cells env3 kv = Some (key, val)"
    using kc by (simp_all add: assms(5))
  show k3: "key_of env3 c = key" and "val_of env3 c = val" using c3 by (simp_all add: key_of_def val_of_def)
  have kvT: "\<And>y. y \<in> T \<Longrightarrow> key_of env3 y = key_of env y \<and> val_of env3 y = val_of env y"
  proof -
    fix y assume y: "y \<in> T"
    from entries_okD [OF e y] obtain p t k v where
      p: "cells env y = Some (p, t)" "cells env p = Some (k, v)" by blast
    have "cells env3 y = Some (p, t)" using frT [OF y] p by simp
    moreover have "cells env3 p = Some (k, v)" using frD [of p] p by simp
    ultimately show "key_of env3 y = key_of env y \<and> val_of env3 y = val_of env y"
      using p by (simp add: key_of_def val_of_def)
  qed
  then show "\<forall>y\<in>set (concat ss). key_of env3 y = key_of env y \<and> val_of env3 y = val_of env y"
    by (simp add: T_def)
  define ss3 where "ss3 = ss[b := c # ss ! b]"
  have ms: "mset (concat ss3) = add_mset c (mset (concat ss))"
    unfolding ss3_def using bk(3) by (rule mset_concat_update_cons)
  then have "mset (concat ss3) = mset (c # concat ss)" by simp
  then have "distinct (concat ss3) = distinct (c # concat ss)" by (rule mset_eq_imp_distinct_iff)
  then have dist3: "distinct (concat ss3)" using dist cT by simp
  have set3: "set (concat ss3) = insert c T"
    using ms unfolding T_def by (metis set_mset_add_mset_insert set_mset_mset)
  have e3: "entries_ok env3 (insert c T)"
    unfolding entries_ok_def
  proof
    fix x assume "x \<in> insert c T"
    then show "case cells env3 x of None \<Rightarrow> False
       | Some (p, t) \<Rightarrow> p \<notin> insert c T \<and> cells env3 p \<noteq> None"
    proof
      assume "x = c"
      then show ?thesis using c3 kc notT by simp
    next
      assume x: "x \<in> T"
      from entries_okD [OF e x] obtain p t k v where
        p: "cells env x = Some (p, t)" "p \<notin> T" "cells env p = Some (k, v)" by blast
      have "cells env3 x = Some (p, t)" using frT [OF x] p by simp
      moreover have "cells env3 p = Some (k, v)" using frD [of p] p by simp
      moreover have "p \<noteq> c" using p(3) fresh by auto
      ultimately show ?thesis using p(2) by simp
    qed
  qed
  have sh3: "table_shape env3 (buckets h3) ss3"
    unfolding table_shape_def
  proof (intro conjI allI impI)
    show "length ss3 = length (buckets h3)" using lss by (simp add: ss3_def assms(6))
    show "distinct (concat ss3)" by (rule dist3)
    show "entries_ok env3 (set (concat ss3))" using e3 set3 by simp
  next
    fix i assume i: "i < length (buckets h3)"
    then have il: "i < length (buckets h)" "i < length ss" using lss by (simp_all add: assms(6))
    have c: "chain env (buckets h ! i) (ss ! i)" using sh il by (simp add: table_shape_def)
    have "set (ss ! i) \<subseteq> T" unfolding T_def using il(2) by (rule set_nth_concat)
    then have "\<forall>z\<in>set (ss ! i). cells env3 z = cells env z" using frT by blast
    from chain_frame [OF c this] have c': "chain env3 (buckets h ! i) (ss ! i)" .
    show "chain env3 (buckets h3 ! i) (ss3 ! i)"
    proof (cases "i = b")
      case True
      then show ?thesis using c' c3 kc il by (simp add: ss3_def assms(6))
    next
      case False
      then show ?thesis using c' il by (simp add: ss3_def assms(6))
    qed
  qed
  have pl3: "placed hashf (bucket_count h3) env3 ss3"
    unfolding placed_def
  proof (intro allI impI ballI)
    fix i y assume i: "i < length ss3" and y: "y \<in> set (ss3 ! i)"
    have il: "i < length ss" using i by (simp add: ss3_def)
    have bc: "bucket_count h3 = bucket_count h" by (simp add: assms(6))
    from y il have "(i = b \<and> y = c) \<or> y \<in> set (ss ! i)"
      by (cases "i = b") (auto simp: ss3_def)
    then show "bucket_for_hash (hashf (key_of env3 y)) (bucket_count h3) = Inr (int i)"
    proof
      assume "i = b \<and> y = c"
      then show ?thesis using k3 bk(4,5) bc by simp
    next
      assume y0: "y \<in> set (ss ! i)"
      then have "y \<in> T" unfolding T_def using set_nth_concat [OF il] by auto
      from kvT [OF this] have "key_of env3 y = key_of env y" by simp
      moreover have "bucket_for_hash (hashf (key_of env y)) (bucket_count h) = Inr (int i)"
        using pl il y0 unfolding placed_def by blast
      ultimately show ?thesis using bc by simp
    qed
  qed
  have hp3: "heap_ok env3"
    unfolding heap_ok_def
  proof (intro conjI allI impI)
    show "0 < free env3" using fp by (simp add: assms(5))
    fix z assume "free env3 \<le> z"
    then have z: "free env + 2 \<le> z" by (simp add: assms(5))
    then have "cells env z = None" using hp by (simp add: heap_ok_def)
    moreover have "z \<noteq> kv" "z \<noteq> c" using z assms(3,4) by simp_all
    ultimately show "cells env3 z = None" using fr by simp
  qed
  have l3: "length (concat ss3) = Suc (length (concat ss))"
    using ms by (metis size_add_mset size_mset)
  show "table_rep hashf env3 h3 (ss[b := c # ss ! b])"
    using sh3 pl3 hp3 m len cnt l3 unfolding ss3_def [symmetric] by (simp add: table_rep_def assms(6))
qed

lemma maybe_rehash:
  assumes "table_rep hashf env h ss"
  shows "\<exists>env1 h1 ss1.
      (if count_h h + 1 \<ge> 2 * bucket_count h then hashtable_rehash hashf env h (bucket_count h * 2)
       else Some (Inr (env, h))) = Some (Inr (env1, h1))
    \<and> table_rep hashf env1 h1 ss1
    \<and> mset (concat ss1) = mset (concat ss)
    \<and> (\<forall>y\<in>set (concat ss). key_of env1 y = key_of env y \<and> val_of env1 y = val_of env y)
    \<and> count_h h1 = count_h h
    \<and> bucket_count h1 = (if count_h h + 1 \<ge> 2 * bucket_count h then (bucket_count h * 2) OR 1
                         else bucket_count h)
    \<and> free env1 = free env"
proof (cases "count_h h + 1 \<ge> 2 * bucket_count h")
  case False
  then show ?thesis using assms by auto
next
  case True
  have sh: "table_shape env (buckets h) ss" and hp: "heap_ok env"
    and cnt: "count_h h = int (length (concat ss))"
    and m: "0 < bucket_count h" and len: "int (length (buckets h)) = bucket_count h"
    using assms(1) by (simp_all add: table_rep_def)
  have e: "entries_ok env (set (concat ss))" using sh by (simp add: table_shape_def)
  have n: "0 \<le> bucket_count h * 2" using m by simp
  from hashtable_rehash_spec [OF sh len n, of hashf]
  obtain env1 h1 ss1 where r:
    "hashtable_rehash hashf env h (bucket_count h * 2) = Some (Inr (env1, h1))"
    "bucket_count h1 = (bucket_count h * 2) OR 1" "int (length (buckets h1)) = bucket_count h1"
    "count_h h1 = count_h h"
    "table_shape env1 (buckets h1) ss1" "placed hashf (bucket_count h1) env1 ss1"
    "mset (concat ss1) = mset (concat ss)"
    "\<forall>c. c \<notin> set (concat ss) \<longrightarrow> cells env1 c = cells env c"
    "\<forall>c. map_option fst (cells env1 c) = map_option fst (cells env c)"
    "free env1 = free env"
    by blast
  have m1: "0 < bucket_count h1" using r(2) n by (simp add: or_one_pos)
  have hp1: "heap_ok env1" using hp e r(8,10) by (rule heap_ok_frame)
  have "length (concat ss1) = length (concat ss)" using r(7) by (rule mset_eq_length)
  then have rep: "table_rep hashf env1 h1 ss1"
    using m1 r(3,4,5,6) hp1 cnt by (simp add: table_rep_def)
  have kv: "\<forall>y\<in>set (concat ss). key_of env1 y = key_of env y \<and> val_of env1 y = val_of env y"
  proof
    fix y assume "y \<in> set (concat ss)"
    from key_val_preserved [OF e this r(8,9)]
    show "key_of env1 y = key_of env y \<and> val_of env1 y = val_of env y" .
  qed
  have "(if count_h h + 1 \<ge> 2 * bucket_count h then hashtable_rehash hashf env h (bucket_count h * 2)
       else Some (Inr (env, h))) = Some (Inr (env1, h1))
      \<and> bucket_count h1 = (if count_h h + 1 \<ge> 2 * bucket_count h then (bucket_count h * 2) OR 1
                         else bucket_count h)"
    using True r(1,2) by simp
  with rep r(7) kv r(4,10) show ?thesis by blast
qed

lemma hashtable_add_spec:
  assumes "table_rep hashf env h ss" "val \<noteq> MUSE_NIL" "hash_opt = None \<or> hash_opt = Some (hashf key)"
    "bucket_count h < 1073741824" "count_h h < 2147483647"
  shows "\<exists>env' h' ss' c.
       hashtable_add hashf diag env h key val hash_opt
          = Some (Inr (BucketSlot (int (bucket_of hashf h' key)), env', h'))
     \<and> table_rep hashf env' h' ss'
     \<and> ht_find hashf env' h' ss' key = Some c \<and> key_of env' c = key \<and> val_of env' c = val
     \<and> mset (concat ss') = add_mset c (mset (concat ss)) \<and> c \<notin> set (concat ss)
     \<and> (\<forall>y\<in>set (concat ss). key_of env' y = key_of env y \<and> val_of env' y = val_of env y)
     \<and> count_h h' = count_h h + 1
     \<and> bucket_count h' = (if count_h h + 1 \<ge> 2 * bucket_count h then (bucket_count h * 2) OR 1
                          else bucket_count h)
     \<and> free env' = free env + 2"
proof -
  have hash: "(case hash_opt of Some x \<Rightarrow> x | None \<Rightarrow> hashf key) = hashf key"
    using assms(3) by auto
  from maybe_rehash [OF assms(1)]
  obtain env1 h1 ss1 where r:
    "(if count_h h + 1 \<ge> 2 * bucket_count h then hashtable_rehash hashf env h (bucket_count h * 2)
       else Some (Inr (env, h))) = Some (Inr (env1, h1))"
    "table_rep hashf env1 h1 ss1" "mset (concat ss1) = mset (concat ss)"
    "\<forall>y\<in>set (concat ss). key_of env1 y = key_of env y \<and> val_of env1 y = val_of env y"
    "count_h h1 = count_h h"
    "bucket_count h1 = (if count_h h + 1 \<ge> 2 * bucket_count h then (bucket_count h * 2) OR 1
                         else bucket_count h)"
    "free env1 = free env"
    by blast
  define b where "b = bucket_of hashf h1 key"
  define kv where "kv = free env1"
  define c where "c = free env1 + 1"
  define env3 where "env3 = env1\<lparr>cells := (cells env1)(kv \<mapsto> (key, val), c \<mapsto> (kv, buckets h1 ! b)),
                                 free := free env1 + 2\<rparr>"
  define h3 where "h3 = h1\<lparr>buckets := (buckets h1)[b := c], count_h := count_h h1 + 1\<rparr>"
  note ac = add_cells [OF r(2) b_def kv_def c_def env3_def h3_def]
  note bk0 = table_rep_bucket [OF assms(1), of key]
  note bk1 = table_rep_bucket [OF r(2), of key, folded b_def]
  have stage1: "(if count_h h + 1 \<ge> 2 * bucket_count h then
                 (case hashtable_rehash hashf env h (bucket_count h * 2) of
                    None \<Rightarrow> None
                  | Some (Inl e) \<Rightarrow> Some (Inl e)
                  | Some (Inr (env1, h1)) \<Rightarrow>
                      (case bucket_for_hash (hashf key) (bucket_count h1) of
                         Inl e \<Rightarrow> Some (Inl e)
                       | Inr bucket1 \<Rightarrow> Some (Inr (bucket1, env1, h1))))
               else Some (Inr (hashf key mod bucket_count h, env, h)))
        = Some (Inr (int b, env1, h1))"
  proof (cases "count_h h + 1 \<ge> 2 * bucket_count h")
    case True
    then show ?thesis using r(1) bk1(4,5) by simp
  next
    case False
    then have "env1 = env" "h1 = h" using r(1) by simp_all
    then show ?thesis using False bk1(4) by simp
  qed
  have b3: "bucket_of hashf h3 key = b" by (simp add: bucket_of_def h3_def b_def)
  have m: "0 < bucket_count h" and cnt: "0 \<le> count_h h"
    using assms(1) by (simp_all add: table_rep_def)
  have ic1: "int_cast (count_h h + 1) = count_h h + 1"
    using cnt assms(5) by (intro int_cast_id) simp_all
  have ic2: "int_cast (2 * bucket_count h) = 2 * bucket_count h"
    using m assms(4) by (intro int_cast_id) simp_all
  have ic3: "int_cast (bucket_count h * 2) = bucket_count h * 2"
    using m assms(4) by (intro int_cast_id) simp_all
  have ic4: "int_cast (count_h h1 + 1) = count_h h1 + 1"
    using cnt assms(5) r(5) by (intro int_cast_id) simp_all
  have res0: "hashtable_add hashf diag env h key val hash_opt = Some (Inr (BucketSlot (int b), env3, h3))"
    unfolding hashtable_add_def hash Let_def ic1 ic2 ic3
    using bk0(5) stage1 assms(2) bk1(2)
    by (simp add: muse_cons_def env3_def h3_def kv_def c_def ic4)
  have res: "hashtable_add hashf diag env h key val hash_opt
          = Some (Inr (BucketSlot (int (bucket_of hashf h3 key)), env3, h3))"
    using res0 by (simp only: b3)
  have "(ss1[b := c # ss1 ! b]) ! b = c # ss1 ! b" using bk1(3) by simp
  then have fnd: "ht_find hashf env3 h3 (ss1[b := c # ss1 ! b]) key = Some c"
    using ac(2) by (simp add: ht_find_def b3)
  have ms: "mset (concat (ss1[b := c # ss1 ! b])) = add_mset c (mset (concat ss))"
    using mset_concat_update_cons [OF bk1(3), of c] r(3) by simp
  have seteq: "set (concat ss1) = set (concat ss)" using r(3) by (metis set_mset_mset)
  have cn: "c \<notin> set (concat ss)" using ac(5) unfolding seteq .
  have kvp: "\<forall>y\<in>set (concat ss). key_of env3 y = key_of env y \<and> val_of env3 y = val_of env y"
    using ac(4) r(4) unfolding seteq by metis
  have "count_h h3 = count_h h + 1
     \<and> bucket_count h3 = (if count_h h + 1 \<ge> 2 * bucket_count h then (bucket_count h * 2) OR 1
                          else bucket_count h)
     \<and> free env3 = free env + 2"
    using r(5,6,7) by (simp add: h3_def env3_def)
  with res ac(1,2,3) fnd ms cn kvp show ?thesis by blast
qed

lemma fn_hashtable_insert:
  assumes "table_rep hashf env h ss" "ht_find hashf env h ss key = None" "val \<noteq> MUSE_NIL"
    "bucket_count h < 1073741824" "count_h h < 2147483647"
  shows "\<exists>env' h' ss' c.
       fn_hashtable hashf diag env h (key # val # rest) = Some (Inr (val, env', h'))
     \<and> table_rep hashf env' h' ss'
     \<and> ht_find hashf env' h' ss' key = Some c \<and> key_of env' c = key \<and> val_of env' c = val
     \<and> mset (concat ss') = add_mset c (mset (concat ss)) \<and> c \<notin> set (concat ss)
     \<and> (\<forall>y\<in>set (concat ss). key_of env' y = key_of env y \<and> val_of env' y = val_of env y)
     \<and> count_h h' = count_h h + 1
     \<and> bucket_count h' = (if count_h h + 1 \<ge> 2 * bucket_count h then (bucket_count h * 2) OR 1
                          else bucket_count h)
     \<and> free env' = free env + 2"
proof -
  have "Some (hashf key) = None \<or> Some (hashf key) = Some (hashf key)" by simp
  from hashtable_add_spec [OF assms(1,3) this assms(4,5), of diag]
  obtain env' h' ss' c where r:
    "hashtable_add hashf diag env h key val (Some (hashf key))
          = Some (Inr (BucketSlot (int (bucket_of hashf h' key)), env', h'))"
    "table_rep hashf env' h' ss'"
    "ht_find hashf env' h' ss' key = Some c" "key_of env' c = key" "val_of env' c = val"
    "mset (concat ss') = add_mset c (mset (concat ss))" "c \<notin> set (concat ss)"
    "\<forall>y\<in>set (concat ss). key_of env' y = key_of env y \<and> val_of env' y = val_of env y"
    "count_h h' = count_h h + 1"
    "bucket_count h' = (if count_h h + 1 \<ge> 2 * bucket_count h then (bucket_count h * 2) OR 1
                          else bucket_count h)"
    "free env' = free env + 2"
    by blast
  have "fn_hashtable hashf diag env h (key # val # rest) = Some (Inr (val, env', h'))"
    using get_absent [OF assms(1,2)] r(1) assms(3)
    by (simp add: fn_hashtable_def muse_evalnext_def)
  with r(2-11) show ?thesis by blast
qed

lemma fn_hashtable_noop:
  assumes "table_rep hashf env h ss" "ht_find hashf env h ss key = None"
  shows "fn_hashtable hashf diag env h (key # MUSE_NIL # rest) = Some (Inr (MUSE_NIL, env, h))"
  using get_absent [OF assms]
  by (simp add: fn_hashtable_def muse_evalnext_def)

subsection \<open>The call entry point\<close>




lemma ex_rep: "table_rep (\<lambda>k. k) ex_env ex_table [[20, 21]]"
  by (simp add: table_rep_def table_shape_def placed_def heap_ok_def entries_ok_def
      ex_env_def ex_table_def MUSE_NIL_def key_of_def bucket_for_hash_pos)

lemma ex_get: "hashtable_get (\<lambda>k. k) ex_env ex_table 2 = Some (Inr (Some (TailField 20), 2))"
  by code_simp


text \<open>
  C1. The claim asks that invoking the table with \<open>(K, MUSE_NIL)\<close> removes K, as the
  documentation of the table does (a table is a function from keys to values, and "if you
  want to remove a key's association from the hash table, pass a second argument of
  \<open>()\<close>"). The paths that store a value keep one pair per key: \<open>fn_hashtable\<close> and
  \<open>hashtable_merge_one\<close> look the key up and set the value of a present key in place.
  \<open>fn_alist_to_hashtable\<close> does not: it copies the list into bucket 0 and rehashes,
  without looking at the keys. From the association list \<open>((1 . 100) (1 . 200))\<close> it
  builds a table of count 2 that holds the key 1 twice; a lookup of 1 returns 200;
  invoking the table with \<open>(1, MUSE_NIL)\<close> returns \<open>MUSE_NIL\<close> and unlinks the first
  pair of key 1 only; the count is then 1 and a lookup of 1 returns 100, not \<open>MUSE_NIL\<close>.
\<close>

theorem fn_hashtable_delete_duplicate:
  "(case fn_alist_to_hashtable (\<lambda>k. k) (\<lambda>c. c) dup_env [10, 11] of
      Some (Inr (env1, h1)) \<Rightarrow>
        count_h h1 = 2 \<and> bucket_count h1 = 3
        \<and> (case fn_hashtable (\<lambda>k. k) True env1 h1 [1] of
             Some (Inr (v0, env0, h0)) \<Rightarrow> v0 = 200
           | _ \<Rightarrow> False)
        \<and> (case fn_hashtable (\<lambda>k. k) True env1 h1 [1, MUSE_NIL] of
             Some (Inr (r, env2, h2)) \<Rightarrow>
               r = MUSE_NIL \<and> count_h h2 = 1
               \<and> (case fn_hashtable (\<lambda>k. k) True env2 h2 [1] of
                    Some (Inr (v, env3, h3)) \<Rightarrow> v = 100 \<and> v \<noteq> MUSE_NIL
                  | _ \<Rightarrow> False)
           | _ \<Rightarrow> False)
    | _ \<Rightarrow> False)"
  by code_simp

lemma absent_everywhere:
  assumes "table_rep hashf env h ss" "ht_find hashf env h ss key = None" "y \<in> set (concat ss)"
  shows "key_of env y \<noteq> key"
proof
  assume k: "key_of env y = key"
  from in_concat_nth [OF assms(3)] obtain j where j: "j < length ss" "y \<in> set (ss ! j)" by blast
  have pl: "placed hashf (bucket_count h) env ss" using assms(1) by (simp add: table_rep_def)
  from pl j k have "bucket_for_hash (hashf key) (bucket_count h) = Inr (int j)"
    unfolding placed_def by blast
  then have "int j = hashf key mod bucket_count h"
    using table_rep_bucket(5) [OF assms(1), of key] by simp
  then have "j = bucket_of hashf h key" by (simp add: bucket_of_def)
  then have "y \<in> set (ss ! bucket_of hashf h key)" using j(2) by simp
  from find_None_prop [OF assms(2) [unfolded ht_find_def] this] k show False by simp
qed

lemma keys_unique_insert:
  assumes "keys_unique env ss" "mset (concat ss') = add_mset c (mset (concat ss))"
    "\<forall>y\<in>set (concat ss). key_of env' y = key_of env y" "key_of env' c = key"
    "\<forall>y\<in>set (concat ss). key_of env y \<noteq> key"
  shows "keys_unique env' ss'"
proof -
  have "image_mset (key_of env') (mset (concat ss)) = image_mset (key_of env) (mset (concat ss))"
  proof (rule image_mset_cong)
    fix y assume "y \<in># mset (concat ss)"
    then have "y \<in> set (concat ss)" by (simp only: set_mset_mset)
    with assms(3) show "key_of env' y = key_of env y" by blast
  qed
  then have "mset (map (key_of env') (concat ss')) = mset (key # map (key_of env) (concat ss))"
    using assms(2,4) by (simp only: mset_map image_mset_add_mset mset.simps)
  then have "distinct (map (key_of env') (concat ss')) = distinct (key # map (key_of env) (concat ss))"
    by (rule mset_eq_imp_distinct_iff)
  moreover have "key \<notin> set (map (key_of env) (concat ss))" using assms(5) by (simp only: set_map) blast
  ultimately show ?thesis using assms(1) by (simp only: keys_unique_def distinct.simps) simp
qed

lemma keys_unique_sub:
  assumes "keys_unique env ss" "mset (concat ss') \<subseteq># mset (concat ss)"
    "\<forall>y\<in>set (concat ss). key_of env' y = key_of env y"
  shows "keys_unique env' ss'"
proof -
  have sub: "set (concat ss') \<subseteq> set (concat ss)"
    using assms(2) by (metis set_mset_mono set_mset_mset)
  have "image_mset (key_of env') (mset (concat ss')) = image_mset (key_of env) (mset (concat ss'))"
  proof (rule image_mset_cong)
    fix y assume "y \<in># mset (concat ss')"
    then have "y \<in> set (concat ss')" by (simp only: set_mset_mset)
    with assms(3) sub show "key_of env' y = key_of env y" by blast
  qed
  moreover have "image_mset (key_of env) (mset (concat ss')) \<subseteq># image_mset (key_of env) (mset (concat ss))"
    using assms(2) by (rule image_mset_subseteq_mono)
  ultimately have "mset (map (key_of env') (concat ss')) \<subseteq># mset (map (key_of env) (concat ss))"
    by (simp only: mset_map)
  then show ?thesis using assms(1) unfolding keys_unique_def by (rule distinct_mset_sub)
qed

lemma delete_then_absent:
  assumes "table_rep hashf env h ss" "ht_find hashf env h ss key = Some x" "keys_unique env ss"
    "\<forall>y\<in>set (concat ss). key_of env' y = key_of env y" "bucket_count h' = bucket_count h"
  shows "ht_find hashf env' h' (ss[bucket_of hashf h key := remove1 x (ss ! bucket_of hashf h key)]) key = None"
proof (rule ccontr)
  define b where "b = bucket_of hashf h key"
  define cs where "cs = ss ! b"
  note bk = table_rep_bucket [OF assms(1), of key, folded b_def]
  have b': "bucket_of hashf h' key = b" using assms(5) by (simp add: bucket_of_def b_def)
  assume "ht_find hashf env' h' (ss[bucket_of hashf h key := remove1 x (ss ! bucket_of hashf h key)]) key \<noteq> None"
  then obtain y where "find (\<lambda>z. key_of env' z = key) (remove1 x cs) = Some y"
    using bk(3) by (auto simp: ht_find_def b' b_def [symmetric] cs_def)
  from find_Some_prop [OF this] have y: "key_of env' y = key" "y \<in> set (remove1 x cs)" by simp_all
  have dist: "distinct (concat ss)" using assms(1) by (simp add: table_rep_def table_shape_def)
  have dcs: "distinct cs" unfolding cs_def using dist bk(3) by (rule distinct_concat_nth)
  have yx: "y \<in> set cs" "y \<noteq> x" using y(2) dcs by simp_all
  have f: "find (\<lambda>z. key_of env z = key) cs = Some x"
    using assms(2) by (simp add: ht_find_def b_def cs_def)
  from find_Some_prop [OF f] have x: "key_of env x = key" "x \<in> set cs" by simp_all
  have inT: "x \<in> set (concat ss)" "y \<in> set (concat ss)" using x(2) yx(1) bk(7) by (auto simp: cs_def)
  then have "key_of env y = key" using assms(4) y(1) by metis
  moreover have "inj_on (key_of env) (set (concat ss))"
    using assms(3) by (simp only: keys_unique_def distinct_map)
  ultimately show False using x(1) inT yx(2) by (auto dest: inj_onD)
qed

lemma or_one_ge: "0 \<le> (n::int) \<Longrightarrow> n \<le> n OR 1"
  by (simp add: or_greater_eq)

lemma fn_hashtable_nil_args:
  "fn_hashtable hashf diag env h [] = fn_hashtable hashf diag env h [MUSE_NIL]"
  by (simp add: fn_hashtable_def muse_evalnext_def)

lemma fn_hashtable_step:
  assumes "table_rep hashf env h ss" "bucket_count h < 1073741824" "count_h h < 2147483647"
  shows "\<exists>v env' h' ss'. fn_hashtable hashf diag env h args = Some (Inr (v, env', h'))
     \<and> table_rep hashf env' h' ss'
     \<and> (count_h h < 2 * bucket_count h \<longrightarrow> count_h h' < 2 * bucket_count h')
     \<and> (keys_unique env ss \<longrightarrow> keys_unique env' ss')
     \<and> (odd (bucket_count h) \<longrightarrow> odd (bucket_count h'))
     \<and> count_h h' \<le> count_h h + 1
     \<and> bucket_count h' \<le> max (bucket_count h) (count_h h + 2)"
proof -
  note rep = assms(1)
  have sz0: "count_h h \<le> count_h h + 1" "bucket_count h \<le> max (bucket_count h) (count_h h + 2)"
    by simp_all
  have same: "\<And>key. \<exists>v env' h' ss'. fn_hashtable hashf diag env h [key] = Some (Inr (v, env', h'))
     \<and> table_rep hashf env' h' ss'
     \<and> (count_h h < 2 * bucket_count h \<longrightarrow> count_h h' < 2 * bucket_count h')
     \<and> (keys_unique env ss \<longrightarrow> keys_unique env' ss')
     \<and> (odd (bucket_count h) \<longrightarrow> odd (bucket_count h'))
     \<and> count_h h' \<le> count_h h + 1
     \<and> bucket_count h' \<le> max (bucket_count h) (count_h h + 2)"
    using fn_hashtable_lookup [OF rep] rep sz0 by blast
  show ?thesis
  proof (cases args)
    case Nil
    then show ?thesis using same [of MUSE_NIL] by (simp only: fn_hashtable_nil_args)
  next
    case (Cons key args1)
    show ?thesis
    proof (cases args1)
      case Nil
      then show ?thesis using same [of key] Cons by simp
    next
      case c2: (Cons val rest)
      have a: "args = key # val # rest" using Cons c2 by simp
      show ?thesis
      proof (cases "ht_find hashf env h ss key")
        case None
        show ?thesis
        proof (cases "val = MUSE_NIL")
          case True
          from fn_hashtable_noop [OF rep None, of diag rest] rep sz0 show ?thesis
            unfolding a True by blast
        next
          case False
          from fn_hashtable_insert [OF rep None False assms(2,3), of diag rest]
          obtain env' h' ss' c where r:
            "fn_hashtable hashf diag env h (key # val # rest) = Some (Inr (val, env', h'))"
            "table_rep hashf env' h' ss'" "key_of env' c = key"
            "mset (concat ss') = add_mset c (mset (concat ss))"
            "\<forall>y\<in>set (concat ss). key_of env' y = key_of env y \<and> val_of env' y = val_of env y"
            "count_h h' = count_h h + 1"
            "bucket_count h' = (if count_h h + 1 \<ge> 2 * bucket_count h then (bucket_count h * 2) OR 1
                                else bucket_count h)"
            by blast
          have m: "0 < bucket_count h" using rep by (simp add: table_rep_def)
          have ge: "bucket_count h * 2 \<le> (bucket_count h * 2) OR 1" using m by (intro or_one_ge) simp
          have load: "count_h h < 2 * bucket_count h \<longrightarrow> count_h h' < 2 * bucket_count h'"
            using r(6,7) m ge by auto
          have ku: "keys_unique env ss \<longrightarrow> keys_unique env' ss'"
          proof
            assume u: "keys_unique env ss"
            have k1: "\<forall>y\<in>set (concat ss). key_of env' y = key_of env y" using r(5) by blast
            have k2: "\<forall>y\<in>set (concat ss). key_of env y \<noteq> key"
              using absent_everywhere [OF rep None] by blast
            from keys_unique_insert [OF u r(4) k1 r(3) k2] show "keys_unique env' ss'" .
          qed
          have od: "odd (bucket_count h) \<longrightarrow> odd (bucket_count h')"
            using r(7) by (simp add: even_or_iff)
          have "(bucket_count h * 2) OR 1 = bucket_count h * 2 + 1" by (simp add: or_one_eq)
          then have sz: "count_h h' \<le> count_h h + 1"
            "bucket_count h' \<le> max (bucket_count h) (count_h h + 2)"
            using r(6,7) by (simp_all split: if_splits)
          from r(1,2) load ku od sz show ?thesis unfolding a by blast
        qed
      next
        case (Some x)
        show ?thesis
        proof (cases "val = MUSE_NIL")
          case True
          from fn_hashtable_delete [OF rep Some assms(3), of diag rest]
          obtain env' h' where r:
            "fn_hashtable hashf diag env h (key # MUSE_NIL # rest) = Some (Inr (MUSE_NIL, env', h'))"
            "table_rep hashf env' h' (ss[bucket_of hashf h key := remove1 x (ss ! bucket_of hashf h key)])"
            "bucket_count h' = bucket_count h" "count_h h' = count_h h - 1"
            "\<forall>y\<in>set (concat ss). key_of env' y = key_of env y \<and> val_of env' y = val_of env y"
            by blast
          define ss' where "ss' = ss[bucket_of hashf h key := remove1 x (ss ! bucket_of hashf h key)]"
          have "mset (concat ss') + mset (ss ! bucket_of hashf h key)
                  = mset (concat ss) + mset (remove1 x (ss ! bucket_of hashf h key))"
            unfolding ss'_def using table_rep_bucket(3) [OF rep] by (rule mset_concat_update)
          moreover have "mset (remove1 x (ss ! bucket_of hashf h key)) \<subseteq># mset (ss ! bucket_of hashf h key)"
            by simp
          ultimately have sub: "mset (concat ss') \<subseteq># mset (concat ss)"
            by (metis add.commute mset_subset_eq_mono_add_right_cancel subset_mset.add_left_mono)
          have ku: "keys_unique env ss \<longrightarrow> keys_unique env' ss'"
          proof
            assume u: "keys_unique env ss"
            have k1: "\<forall>y\<in>set (concat ss). key_of env' y = key_of env y" using r(5) by blast
            from keys_unique_sub [OF u sub k1] show "keys_unique env' ss'" .
          qed
          have "(count_h h < 2 * bucket_count h \<longrightarrow> count_h h' < 2 * bucket_count h')
              \<and> (odd (bucket_count h) \<longrightarrow> odd (bucket_count h'))
              \<and> count_h h' \<le> count_h h + 1
              \<and> bucket_count h' \<le> max (bucket_count h) (count_h h + 2)"
            using r(3,4) by simp
          with r(1,2) ku show ?thesis unfolding a True ss'_def by blast
        next
          case False
          from fn_hashtable_update [OF rep Some False, of diag rest]
          obtain env' where r:
            "fn_hashtable hashf diag env h (key # val # rest) = Some (Inr (val, env', h))"
            "table_rep hashf env' h ss" "\<forall>y. key_of env' y = key_of env y"
            by blast
          have "key_of env' = key_of env" using r(3) by auto
          then have "keys_unique env ss \<longrightarrow> keys_unique env' ss" by (simp add: keys_unique_def)
          with r(1,2) sz0 show ?thesis unfolding a by blast
        qed
      qed
    qed
  qed
qed

text \<open>
  Where no key is stored twice, storing and removing behave as the documentation says.
  For a well-formed table whose sizes leave room in \<open>int\<close>, every key K and every value
  V other than \<open>MUSE_NIL\<close>: invoking the table with (K, V) returns V, and invoking it
  then with K alone returns V. If no two stored pairs have the same key, invoking the
  table with \<open>(K, MUSE_NIL)\<close> returns \<open>MUSE_NIL\<close>, keys stay unique, and invoking it then
  with K alone returns \<open>MUSE_NIL\<close>.
\<close>

lemma fn_hashtable_put_get:
  assumes "table_rep hashf env h ss" "bucket_count h < 1073741824" "count_h h < 2147483647"
  shows "(V \<noteq> MUSE_NIL \<longrightarrow>
           (\<exists>env1 h1 ss1. fn_hashtable hashf diag env h [K, V] = Some (Inr (V, env1, h1))
              \<and> table_rep hashf env1 h1 ss1
              \<and> fn_hashtable hashf diag env1 h1 [K] = Some (Inr (V, env1, h1))))
       \<and> (keys_unique env ss \<longrightarrow>
           (\<exists>env1 h1 ss1. fn_hashtable hashf diag env h [K, MUSE_NIL] = Some (Inr (MUSE_NIL, env1, h1))
              \<and> table_rep hashf env1 h1 ss1 \<and> keys_unique env1 ss1
              \<and> fn_hashtable hashf diag env1 h1 [K] = Some (Inr (MUSE_NIL, env1, h1))))"
proof (intro conjI impI)
  note rep = assms(1)
  assume V: "V \<noteq> MUSE_NIL"
  show "\<exists>env1 h1 ss1. fn_hashtable hashf diag env h [K, V] = Some (Inr (V, env1, h1))
              \<and> table_rep hashf env1 h1 ss1
              \<and> fn_hashtable hashf diag env1 h1 [K] = Some (Inr (V, env1, h1))"
  proof (cases "ht_find hashf env h ss K")
    case None
    from fn_hashtable_insert [OF rep None V assms(2,3), of diag "[]"]
    obtain env1 h1 ss1 c where r:
      "fn_hashtable hashf diag env h [K, V] = Some (Inr (V, env1, h1))"
      "table_rep hashf env1 h1 ss1" "ht_find hashf env1 h1 ss1 K = Some c" "val_of env1 c = V"
      by blast
    have "fn_hashtable hashf diag env1 h1 [K] = Some (Inr (V, env1, h1))"
      using fn_hashtable_lookup [OF r(2), of diag K] r(3,4) by (simp add: ht_lookup_def)
    with r(1,2) show ?thesis by blast
  next
    case (Some x)
    from fn_hashtable_update [OF rep Some V, of diag "[]"]
    obtain env1 where r: "fn_hashtable hashf diag env h [K, V] = Some (Inr (V, env1, h))"
      "table_rep hashf env1 h ss" "\<forall>y. key_of env1 y = key_of env y" "val_of env1 x = V"
      by blast
    have "key_of env1 = key_of env" using r(3) by auto
    then have "ht_find hashf env1 h ss K = Some x" using Some by (simp add: ht_find_def)
    then have "fn_hashtable hashf diag env1 h [K] = Some (Inr (V, env1, h))"
      using fn_hashtable_lookup [OF r(2), of diag K] r(4) by (simp add: ht_lookup_def)
    with r(1,2) show ?thesis by blast
  qed
next
  note rep = assms(1)
  assume u: "keys_unique env ss"
  show "\<exists>env1 h1 ss1. fn_hashtable hashf diag env h [K, MUSE_NIL] = Some (Inr (MUSE_NIL, env1, h1))
              \<and> table_rep hashf env1 h1 ss1 \<and> keys_unique env1 ss1
              \<and> fn_hashtable hashf diag env1 h1 [K] = Some (Inr (MUSE_NIL, env1, h1))"
  proof (cases "ht_find hashf env h ss K")
    case None
    have "fn_hashtable hashf diag env h [K] = Some (Inr (MUSE_NIL, env, h))"
      using fn_hashtable_lookup [OF rep, of diag K] None by (simp add: ht_lookup_def)
    with fn_hashtable_noop [OF rep None, of diag "[]"] rep u show ?thesis by blast
  next
    case (Some x)
    define ss' where "ss' = ss[bucket_of hashf h K := remove1 x (ss ! bucket_of hashf h K)]"
    from fn_hashtable_delete [OF rep Some assms(3), of diag "[]"]
    obtain env1 h1 where r:
      "fn_hashtable hashf diag env h [K, MUSE_NIL] = Some (Inr (MUSE_NIL, env1, h1))"
      "table_rep hashf env1 h1 ss'"
      "bucket_count h1 = bucket_count h"
      "\<forall>y\<in>set (concat ss). key_of env1 y = key_of env y \<and> val_of env1 y = val_of env y"
      unfolding ss'_def by blast
    have k1: "\<forall>y\<in>set (concat ss). key_of env1 y = key_of env y" using r(4) by blast
    have "mset (concat ss') + mset (ss ! bucket_of hashf h K)
            = mset (concat ss) + mset (remove1 x (ss ! bucket_of hashf h K))"
      unfolding ss'_def using table_rep_bucket(3) [OF rep] by (rule mset_concat_update)
    moreover have "mset (remove1 x (ss ! bucket_of hashf h K)) \<subseteq># mset (ss ! bucket_of hashf h K)"
      by simp
    ultimately have sub: "mset (concat ss') \<subseteq># mset (concat ss)"
      by (metis add.commute mset_subset_eq_mono_add_right_cancel subset_mset.add_left_mono)
    have ku: "keys_unique env1 ss'" using u sub k1 by (rule keys_unique_sub)
    have "ht_find hashf env1 h1 ss' K = None"
      unfolding ss'_def using rep Some u k1 r(3) by (rule delete_then_absent)
    then have "fn_hashtable hashf diag env1 h1 [K] = Some (Inr (MUSE_NIL, env1, h1))"
      using fn_hashtable_lookup [OF r(2), of diag K] by (simp add: ht_lookup_def)
    with r(1,2) ku show ?thesis by blast
  qed
qed

lemma ex_unique: "keys_unique ex_env [[20, 21]]"
  by (simp add: keys_unique_def key_of_def ex_env_def)

text \<open>
  In the example table (keys 1 and 2): the new key 5 is given the value 9, which makes the
  table rehash; and the key 2 is removed.
\<close>

lemma fn_hashtable_put_get_example:
  "table_rep (\<lambda>k. k) ex_env ex_table [[20, 21]] \<and> (9 :: muse_cell) \<noteq> MUSE_NIL
   \<and> keys_unique ex_env [[20, 21]]
   \<and> (\<exists>env1 h1 ss1. fn_hashtable (\<lambda>k. k) True ex_env ex_table [5, 9] = Some (Inr (9, env1, h1))
         \<and> table_rep (\<lambda>k. k) env1 h1 ss1
         \<and> fn_hashtable (\<lambda>k. k) True env1 h1 [5] = Some (Inr (9, env1, h1)))
   \<and> (\<exists>env1 h1 ss1. fn_hashtable (\<lambda>k. k) True ex_env ex_table [2, MUSE_NIL] = Some (Inr (MUSE_NIL, env1, h1))
         \<and> table_rep (\<lambda>k. k) env1 h1 ss1 \<and> keys_unique env1 ss1
         \<and> fn_hashtable (\<lambda>k. k) True env1 h1 [2] = Some (Inr (MUSE_NIL, env1, h1)))"
proof -
  have a: "table_rep (\<lambda>k. k) ex_env ex_table [[20, 21]]" by (rule ex_rep)
  have b: "(9 :: muse_cell) \<noteq> MUSE_NIL" by (simp add: MUSE_NIL_def)
  have c: "keys_unique ex_env [[20, 21]]" by (rule ex_unique)
  have sz: "bucket_count ex_table < 1073741824" "count_h ex_table < 2147483647"
    by (simp_all add: ex_table_def)
  from fn_hashtable_put_get [OF a sz, of 9 True 5] b
  have d: "\<exists>env1 h1 ss1. fn_hashtable (\<lambda>k. k) True ex_env ex_table [5, 9] = Some (Inr (9, env1, h1))
         \<and> table_rep (\<lambda>k. k) env1 h1 ss1
         \<and> fn_hashtable (\<lambda>k. k) True env1 h1 [5] = Some (Inr (9, env1, h1))"
    by blast
  from fn_hashtable_put_get [OF a sz, of 9 True 2] c
  have e: "\<exists>env1 h1 ss1. fn_hashtable (\<lambda>k. k) True ex_env ex_table [2, MUSE_NIL] = Some (Inr (MUSE_NIL, env1, h1))
         \<and> table_rep (\<lambda>k. k) env1 h1 ss1 \<and> keys_unique env1 ss1
         \<and> fn_hashtable (\<lambda>k. k) True env1 h1 [2] = Some (Inr (MUSE_NIL, env1, h1))"
    by blast
  from a b c d e show ?thesis by (intro conjI)
qed

subsection \<open>Sequences of calls and construction\<close>

text \<open>
  Over a sequence of calls the table stays well formed, the load bound is kept, and an odd
  bucket count stays odd. The sizes stay in \<open>int\<close> when there is room for one pair per
  call: a rehash takes the bucket count from b to 2 b + 1 only when the pair count has
  reached 2 b - 1.
\<close>

lemma invoke_all_inv:
  assumes "table_rep hashf env h ss" "count_h h < 2 * bucket_count h"
    "bucket_count h < 1073741824" "count_h h + int (length calls) + 1 < 1073741824"
  shows "\<exists>sts. invoke_all hashf diag env h calls = Some (Inr sts) \<and> length sts = length calls
     \<and> (\<forall>st\<in>set sts. count_h (snd st) < 2 * bucket_count (snd st)
            \<and> (\<exists>ss'. table_rep hashf (fst st) (snd st) ss')
            \<and> (odd (bucket_count h) \<longrightarrow> odd (bucket_count (snd st))))"
  using assms
proof (induction calls arbitrary: env h ss)
  case Nil
  then show ?case by simp
next
  case (Cons args calls)
  have sz: "count_h h < 2147483647" using Cons.prems(4) by simp
  from fn_hashtable_step [OF Cons.prems(1,3) sz, of diag args] Cons.prems(2)
  obtain v env1 h1 ss1 where r: "fn_hashtable hashf diag env h args = Some (Inr (v, env1, h1))"
    "table_rep hashf env1 h1 ss1" "count_h h1 < 2 * bucket_count h1"
    "odd (bucket_count h) \<longrightarrow> odd (bucket_count h1)"
    "count_h h1 \<le> count_h h + 1" "bucket_count h1 \<le> max (bucket_count h) (count_h h + 2)"
    by blast
  have b1: "bucket_count h1 < 1073741824" using r(6) Cons.prems(3,4) by simp
  have c1: "count_h h1 + int (length calls) + 1 < 1073741824" using r(5) Cons.prems(4) by simp
  from Cons.IH [OF r(2,3) b1 c1]
  obtain sts where s: "invoke_all hashf diag env1 h1 calls = Some (Inr sts)" "length sts = length calls"
    "\<forall>st\<in>set sts. count_h (snd st) < 2 * bucket_count (snd st)
            \<and> (\<exists>ss'. table_rep hashf (fst st) (snd st) ss')
            \<and> (odd (bucket_count h1) \<longrightarrow> odd (bucket_count (snd st)))"
    by blast
  have "invoke_all hashf diag env h (args # calls) = Some (Inr ((env1, h1) # sts))"
    using r(1) s(1) by simp
  moreover have "length ((env1, h1) # sts) = length (args # calls)" using s(2) by simp
  moreover have "\<forall>st\<in>set ((env1, h1) # sts). count_h (snd st) < 2 * bucket_count (snd st)
            \<and> (\<exists>ss'. table_rep hashf (fst st) (snd st) ss')
            \<and> (odd (bucket_count h) \<longrightarrow> odd (bucket_count (snd st)))"
    using r(2,3,4) s(3) by auto
  ultimately show ?case by blast
qed

text \<open>
  From a table with a positive bucket count whose pair count is below twice its bucket
  count (as it is after construction with a positive size: the count is 0), every sequence
  of calls through \<open>fn_hashtable\<close> (insertions, and lookups and deletions as well) that
  leaves the sizes room in \<open>int\<close> returns normally, and after each call the pair count is
  strictly less than twice the bucket count.
\<close>

lemma invoke_all_load_factor:
  assumes "table_rep hashf env h ss" "count_h h < 2 * bucket_count h"
    "bucket_count h < 1073741824" "count_h h + int (length calls) + 1 < 1073741824"
  shows "\<exists>sts. invoke_all hashf diag env h calls = Some (Inr sts) \<and> length sts = length calls
     \<and> (\<forall>st\<in>set sts. count_h (snd st) < 2 * bucket_count (snd st))"
proof -
  from invoke_all_inv [OF assms, of diag]
  obtain sts where "invoke_all hashf diag env h calls = Some (Inr sts)" "length sts = length calls"
    "\<forall>st\<in>set sts. count_h (snd st) < 2 * bucket_count (snd st)
            \<and> (\<exists>ss'. table_rep hashf (fst st) (snd st) ss')
            \<and> (odd (bucket_count h) \<longrightarrow> odd (bucket_count (snd st)))"
    by blast
  then show ?thesis by blast
qed

text \<open>
  A table made by \<open>mk-hashtable\<close> with no size or with a positive size (as \<open>(int)\<close>
  converts it) is well formed and empty.
\<close>

lemma fn_mk_hashtable_rep:
  assumes "heap_ok env" "args = [] \<or> 0 < int_cast (iv (hd args))"
  shows "table_rep hashf env (fn_mk_hashtable iv args)
           (replicate (nat (bucket_count (fn_mk_hashtable iv args))) [])"
    and "count_h (fn_mk_hashtable iv args) = 0"
    and "bucket_count (fn_mk_hashtable iv args) = (if args = [] then 7 else int_cast (iv (hd args)))"
proof -
  define n where "n = (if args = [] then 7 else int_cast (iv (hd args)))"
  have n: "0 < n" using assms(2) by (auto simp: n_def)
  have h: "fn_mk_hashtable iv args = \<lparr>count_h = 0, bucket_count = n, buckets = replicate (nat n) MUSE_NIL\<rparr>"
    by (cases args)
       (simp_all add: fn_mk_hashtable_def hashtable_init_def hashtable_zero_def calloc_cells_def
          muse_evalnext_def n_def)
  show "count_h (fn_mk_hashtable iv args) = 0" by (simp add: h)
  show "bucket_count (fn_mk_hashtable iv args) = (if args = [] then 7 else int_cast (iv (hd args)))"
    by (simp add: h n_def)
  have "concat (replicate (nat n) ([] :: muse_cell list)) = []" by simp
  then show "table_rep hashf env (fn_mk_hashtable iv args)
           (replicate (nat (bucket_count (fn_mk_hashtable iv args))) [])"
    using n assms(1)
    by (simp add: h table_rep_def table_shape_def placed_def entries_ok_def)
qed

text \<open>
  \<open>(mk-hashtable 1)\<close>, then three insertions, a deletion and an insertion: the pair count
  and the bucket count after each call.
\<close>

lemma invoke_all_load_factor_example:
  "table_rep (\<lambda>k. k) empty_env (fn_mk_hashtable (\<lambda>c. c) [1]) [[]]
   \<and> count_h (fn_mk_hashtable (\<lambda>c. c) [1]) < 2 * bucket_count (fn_mk_hashtable (\<lambda>c. c) [1])
   \<and> (\<exists>sts. invoke_all (\<lambda>k. k) True empty_env (fn_mk_hashtable (\<lambda>c. c) [1])
               [[1, 100], [2, 200], [3, 300], [2, 0], [5, 500]] = Some (Inr sts)
         \<and> length sts = 5
         \<and> (\<forall>st\<in>set sts. count_h (snd st) < 2 * bucket_count (snd st))
         \<and> map (\<lambda>st. (count_h (snd st), bucket_count (snd st))) sts
             = [(1, 1), (2, 3), (3, 3), (2, 3), (3, 3)])"
proof -
  have hp: "heap_ok empty_env" by (simp add: heap_ok_def empty_env_def)
  have ar: "[1] = [] \<or> 0 < int_cast ((\<lambda>c. c) (hd [1 :: muse_cell]))" by (simp add: int_cast_def)
  have bc: "bucket_count (fn_mk_hashtable (\<lambda>c. c) [1]) = 1"
    using fn_mk_hashtable_rep(3) [where iv = "\<lambda>c. c" and args = "[1]", OF hp ar]
    by (simp add: int_cast_def)
  have cn: "count_h (fn_mk_hashtable (\<lambda>c. c) [1]) = 0"
    using fn_mk_hashtable_rep(2) [where iv = "\<lambda>c. c" and args = "[1]", OF hp ar] by simp
  have a: "table_rep (\<lambda>k. k) empty_env (fn_mk_hashtable (\<lambda>c. c) [1]) [[]]"
    using fn_mk_hashtable_rep(1) [where iv = "\<lambda>c. c" and args = "[1]" and hashf = "\<lambda>k. k", OF hp ar] bc
    by simp
  have b: "count_h (fn_mk_hashtable (\<lambda>c. c) [1]) < 2 * bucket_count (fn_mk_hashtable (\<lambda>c. c) [1])"
    using cn bc by simp
  have s1: "bucket_count (fn_mk_hashtable (\<lambda>c. c) [1]) < 1073741824" using bc by simp
  have s2: "count_h (fn_mk_hashtable (\<lambda>c. c) [1])
              + int (length [[1, 100], [2, 200], [3, 300], [2, 0], [5, 500 :: muse_cell]]) + 1 < 1073741824"
    using cn by simp
  from invoke_all_load_factor [OF a b s1 s2, of True]
  obtain sts where s: "invoke_all (\<lambda>k. k) True empty_env (fn_mk_hashtable (\<lambda>c. c) [1])
               [[1, 100], [2, 200], [3, 300], [2, 0], [5, 500]] = Some (Inr sts)"
    "length sts = length [[1, 100], [2, 200], [3, 300], [2, 0], [5, 500 :: muse_cell]]"
    "\<forall>st\<in>set sts. count_h (snd st) < 2 * bucket_count (snd st)"
    by blast
  have "map_option (map_sum id (map (\<lambda>st. (count_h (snd st), bucket_count (snd st)))))
          (invoke_all (\<lambda>k. k) True empty_env (fn_mk_hashtable (\<lambda>c. c) [1])
               [[1, 100], [2, 200], [3, 300], [2, 0], [5, 500]])
        = Some (Inr [(1, 1), (2, 3), (3, 3), (2, 3), (3, 3)])"
    by code_simp
  then have m: "map (\<lambda>st. (count_h (snd st), bucket_count (snd st))) sts
             = [(1, 1), (2, 3), (3, 3), (2, 3), (3, 3)]"
    using s(1) by simp
  have l: "length sts = 5" using s(2) by simp
  have "invoke_all (\<lambda>k. k) True empty_env (fn_mk_hashtable (\<lambda>c. c) [1])
               [[1, 100], [2, 200], [3, 300], [2, 0], [5, 500]] = Some (Inr sts)
         \<and> length sts = 5
         \<and> (\<forall>st\<in>set sts. count_h (snd st) < 2 * bucket_count (snd st))
         \<and> map (\<lambda>st. (count_h (snd st), bucket_count (snd st))) sts
             = [(1, 1), (2, 3), (3, 3), (2, 3), (3, 3)]"
    using s(1) l s(3) m by (intro conjI)
  then have "\<exists>sts. invoke_all (\<lambda>k. k) True empty_env (fn_mk_hashtable (\<lambda>c. c) [1])
               [[1, 100], [2, 200], [3, 300], [2, 0], [5, 500]] = Some (Inr sts)
         \<and> length sts = 5
         \<and> (\<forall>st\<in>set sts. count_h (snd st) < 2 * bucket_count (snd st))
         \<and> map (\<lambda>st. (count_h (snd st), bucket_count (snd st))) sts
             = [(1, 1), (2, 3), (3, 3), (2, 3), (3, 3)]"
    by (rule exI)
  with a b show ?thesis by (intro conjI)
qed

text \<open>
  C2. The claim asks that the pair count stays below twice the bucket count after each
  insertion into any table. \<open>hashtable_add\<close> rehashes to that end, and from a table with a
  positive bucket count the bound is kept. \<open>hashtable_init\<close> builds a table with the
  requested number of buckets as it is, also for the size 0 (the size that
  \<open>hashtable_map\<close>, \<open>hashtable_join\<close> and \<open>hashtable_collect\<close> request for the result on an
  empty table): that table has count 0 and bucket count 0, so the bound does not hold of
  it, and its first insertion divides by zero in \<open>bucket_for_hash\<close> before a rehash can
  take place.
\<close>

theorem hashtable_load_factor_no_buckets:
  "count_h (fn_mk_hashtable (\<lambda>c. c) [0]) = 0
   \<and> bucket_count (fn_mk_hashtable (\<lambda>c. c) [0]) = 0
   \<and> 2 * bucket_count (fn_mk_hashtable (\<lambda>c. c) [0]) \<le> count_h (fn_mk_hashtable (\<lambda>c. c) [0])
   \<and> invoke_all (\<lambda>k. k) True empty_env (fn_mk_hashtable (\<lambda>c. c) [0]) [[1, 100]]
       = Some (Inl DivisionByZero)"
  by (simp add: fn_mk_hashtable_def hashtable_init_def hashtable_zero_def calloc_cells_def
      muse_evalnext_def fn_hashtable_def hashtable_get_def bucket_for_hash_def int_cast_def)

text \<open>
  C3. The claim asks for an odd bucket count from construction on. \<open>hashtable_rehash\<close>
  forces the new count odd with \<open>| 1\<close>, and so does the construction from an association
  list, which goes through it; the default size is 7. \<open>hashtable_init\<close> with a requested
  size stores the size as it is: \<open>(mk-hashtable 4)\<close> has 4 buckets, and
  \<open>(mk-hashtable 0)\<close> has none, so that the first call of the table divides by zero.
\<close>

theorem hashtable_init_bucket_count:
  "bucket_count (fn_mk_hashtable (\<lambda>c. c) [4]) = 4
   \<and> even (bucket_count (fn_mk_hashtable (\<lambda>c. c) [4]))
   \<and> bucket_count (fn_mk_hashtable (\<lambda>c. c) [0]) = 0
   \<and> fn_hashtable (\<lambda>k. k) True empty_env (fn_mk_hashtable (\<lambda>c. c) [0]) [1, 100] = Some (Inl DivisionByZero)
   \<and> bucket_count (fn_mk_hashtable (\<lambda>c. c) []) = 7"
  by (simp add: fn_mk_hashtable_def hashtable_init_def hashtable_zero_def calloc_cells_def
      muse_evalnext_def fn_hashtable_def hashtable_get_def bucket_for_hash_def int_cast_def)

text \<open>
  The list that \<open>muse_array_to_list_env\<close> allocates: fresh list cells, one per element,
  with the elements as heads.
\<close>

lemma array_to_list_chain:
  assumes "heap_ok env" "muse_array_to_list_env env es = (c, env')"
  shows "\<exists>cs. chain env' c cs \<and> length cs = length es
       \<and> map (\<lambda>x. map_option fst (cells env' x)) cs = map Some es
       \<and> distinct cs \<and> (\<forall>x\<in>set cs. free env \<le> x)
       \<and> (\<forall>z. z < free env \<longrightarrow> cells env' z = cells env z)
       \<and> free env \<le> free env' \<and> heap_ok env'"
  using assms
proof (induction es arbitrary: c env')
  case Nil
  then have "c = MUSE_NIL" "env' = env" by simp_all
  then have "chain env' c [] \<and> length ([] :: muse_cell list) = length ([] :: muse_cell list)
       \<and> map (\<lambda>x. map_option fst (cells env' x)) [] = map Some []
       \<and> distinct ([] :: muse_cell list) \<and> (\<forall>x\<in>set []. free env \<le> x)
       \<and> (\<forall>z. z < free env \<longrightarrow> cells env' z = cells env z)
       \<and> free env \<le> free env' \<and> heap_ok env'"
    using Nil.prems(1) by simp
  then show ?case by (rule exI)
next
  case (Cons e es)
  obtain t env1 where t: "muse_array_to_list_env env es = (t, env1)" by (cases "muse_array_to_list_env env es")
  from Cons.IH [OF Cons.prems(1) t] obtain cs where r: "chain env1 t cs" "length cs = length es"
    "map (\<lambda>x. map_option fst (cells env1 x)) cs = map Some es"
    "distinct cs" "\<forall>x\<in>set cs. free env \<le> x"
    "\<forall>z. z < free env \<longrightarrow> cells env1 z = cells env z"
    "free env \<le> free env1" "heap_ok env1"
    by blast
  have c: "c = free env1" "env' = env1\<lparr>cells := (cells env1)(free env1 \<mapsto> (e, t)), free := free env1 + 1\<rparr>"
    using Cons.prems(2) t by (auto simp: muse_cons_def)
  have fp: "0 < free env1" "cells env1 (free env1) = None" using r(8) by (simp_all add: heap_ok_def)
  have dom: "\<And>x. x \<in> set cs \<Longrightarrow> cells env1 x \<noteq> None"
  proof -
    fix x assume "x \<in> set cs"
    then have "map_option fst (cells env1 x) \<in> set (map (\<lambda>x. map_option fst (cells env1 x)) cs)" by simp
    then have "map_option fst (cells env1 x) \<in> set (map Some es)" by (simp only: r(3))
    then show "cells env1 x \<noteq> None" by auto
  qed
  have notin: "c \<notin> set cs" using dom [of c] fp(2) c(1) by auto
  have fr: "\<And>z. z \<noteq> c \<Longrightarrow> cells env' z = cells env1 z" by (simp add: c)
  have ch: "chain env' t cs" using r(1) notin fr by (rule chain_frame1)
  have ch': "chain env' c (c # cs)" using ch c fp(1) by (simp add: MUSE_NIL_def)
  have heads: "map (\<lambda>x. map_option fst (cells env' x)) (c # cs) = map Some (e # es)"
  proof -
    have "map (\<lambda>x. map_option fst (cells env' x)) cs = map (\<lambda>x. map_option fst (cells env1 x)) cs"
    proof (rule map_cong [OF refl])
      fix x assume "x \<in> set cs"
      then have "x \<noteq> c" using notin by auto
      then show "map_option fst (cells env' x) = map_option fst (cells env1 x)" using fr by simp
    qed
    then show ?thesis using r(3) c by simp
  qed
  have hp: "heap_ok env'" using r(8) by (auto simp: heap_ok_def c)
  have "chain env' c (c # cs) \<and> length (c # cs) = length (e # es)
       \<and> map (\<lambda>x. map_option fst (cells env' x)) (c # cs) = map Some (e # es)
       \<and> distinct (c # cs) \<and> (\<forall>x\<in>set (c # cs). free env \<le> x)
       \<and> (\<forall>z. z < free env \<longrightarrow> cells env' z = cells env z)
       \<and> free env \<le> free env' \<and> heap_ok env'"
    using ch' r(2) heads r(4) notin r(5,6,7) hp c(1) fr by (auto simp: c(2))
  then show ?case by (rule exI)
qed

text \<open>
  A table built from an association list (its elements being pair cells of the heap) is
  well formed: it holds the pairs of the list, its bucket count is odd, and its pair
  count is below twice its bucket count. Its keys are those of the list, repeated or not.
\<close>

lemma fn_alist_to_hashtable_rep:
  assumes "heap_ok env" "\<forall>e\<in>set es. cells env e \<noteq> None"
  shows "\<exists>env' h' ss'. fn_alist_to_hashtable hashf iv env es = Some (Inr (env', h'))
      \<and> table_rep hashf env' h' ss'
      \<and> count_h h' = int (length es) \<and> bucket_count h' = int (length es) OR 1
      \<and> count_h h' < 2 * bucket_count h'
      \<and> mset (map (\<lambda>x. map_option fst (cells env' x)) (concat ss')) = mset (map Some es)"
proof -
  obtain c env1 where t: "muse_array_to_list_env env es = (c, env1)" by (cases "muse_array_to_list_env env es")
  from array_to_list_chain [OF assms(1) t] obtain cs where r: "chain env1 c cs" "length cs = length es"
    "map (\<lambda>x. map_option fst (cells env1 x)) cs = map Some es"
    "distinct cs" "\<forall>x\<in>set cs. free env \<le> x"
    "\<forall>z. z < free env \<longrightarrow> cells env1 z = cells env z"
    "free env \<le> free env1" "heap_ok env1"
    by blast
  define h1 where "h1 = \<lparr>count_h = int (length es), bucket_count = 7,
                          buckets = (replicate 7 MUSE_NIL)[0 := c]\<rparr>"
  define ss1 where "ss1 = cs # replicate 6 ([] :: muse_cell list)"
  have mk: "fn_mk_hashtable iv [] = \<lparr>count_h = 0, bucket_count = 7, buckets = replicate 7 MUSE_NIL\<rparr>"
    by (simp add: fn_mk_hashtable_def hashtable_init_def hashtable_zero_def calloc_cells_def)
  have run: "fn_alist_to_hashtable hashf iv env es = hashtable_rehash hashf env1 h1 (int (length es))"
    by (simp add: fn_alist_to_hashtable_def mk t h1_def Let_def)
  have cc: "concat ss1 = cs" by (simp add: ss1_def)
  have e1: "entries_ok env1 (set cs)"
    unfolding entries_ok_def
  proof
    fix x assume x: "x \<in> set cs"
    then obtain i where i: "i < length cs" "cs ! i = x" by (metis in_set_conv_nth)
    have "map (\<lambda>x. map_option fst (cells env1 x)) cs ! i = map Some es ! i" by (simp only: r(3))
    then have hx: "map_option fst (cells env1 x) = Some (es ! i)" using i r(2) by simp
    then obtain t' where cx: "cells env1 x = Some (es ! i, t')" by auto
    have "es ! i \<in> set es" using i(1) r(2) by simp
    then have ce: "cells env (es ! i) \<noteq> None" using assms(2) by blast
    then have lt: "es ! i < free env" using heap_ok_lt [OF assms(1)] by blast
    then have "es ! i \<notin> set cs" using r(5) by auto
    moreover have "cells env1 (es ! i) \<noteq> None" using r(6) lt ce by simp
    ultimately show "case cells env1 x of None \<Rightarrow> False
         | Some (p, t) \<Rightarrow> p \<notin> set cs \<and> cells env1 p \<noteq> None"
      using cx by simp
  qed
  have sh: "table_shape env1 (buckets h1) ss1"
    unfolding table_shape_def cc
  proof (intro conjI allI impI)
    show "length ss1 = length (buckets h1)" by (simp add: ss1_def h1_def)
    show "distinct cs" by (rule r(4))
    show "entries_ok env1 (set cs)" by (rule e1)
  next
    fix i assume "i < length (buckets h1)"
    then have i: "i < 7" by (simp add: h1_def)
    show "chain env1 (buckets h1 ! i) (ss1 ! i)"
    proof (cases i)
      case 0
      then show ?thesis using r(1) by (simp add: h1_def ss1_def)
    next
      case (Suc j)
      then show ?thesis using i by (simp add: h1_def ss1_def)
    qed
  qed
  have len: "int (length (buckets h1)) = bucket_count h1" by (simp add: h1_def)
  have n: "0 \<le> int (length es)" by simp
  from hashtable_rehash_spec [OF sh len n, of hashf]
  obtain env' h' ss' where q:
    "hashtable_rehash hashf env1 h1 (int (length es)) = Some (Inr (env', h'))"
    "bucket_count h' = int (length es) OR 1" "int (length (buckets h')) = bucket_count h'"
    "count_h h' = count_h h1"
    "table_shape env' (buckets h') ss'" "placed hashf (bucket_count h') env' ss'"
    "mset (concat ss') = mset (concat ss1)"
    "\<forall>c. c \<notin> set (concat ss1) \<longrightarrow> cells env' c = cells env1 c"
    "\<forall>c. map_option fst (cells env' c) = map_option fst (cells env1 c)"
    "free env' = free env1"
    by blast
  have m: "0 < bucket_count h'" using q(2) by (simp add: or_one_pos)
  have hp: "heap_ok env'" using r(8) e1 q(8) [unfolded cc] q(10) by (rule heap_ok_frame)
  have "length (concat ss') = length cs" using q(7) cc by (metis mset_eq_length)
  then have rep: "table_rep hashf env' h' ss'"
    using m q(3,4,5,6) hp r(2) by (simp add: table_rep_def h1_def)
  have cnt: "count_h h' = int (length es)" using q(4) by (simp add: h1_def)
  have "int (length es) \<le> int (length es) OR 1" by (intro or_one_ge) simp
  then have load: "count_h h' < 2 * bucket_count h'" using cnt q(2) m by simp
  have "(\<lambda>x. map_option fst (cells env' x)) = (\<lambda>x. map_option fst (cells env1 x))"
    using q(9) by auto
  then have "mset (map (\<lambda>x. map_option fst (cells env' x)) (concat ss'))
      = image_mset (\<lambda>x. map_option fst (cells env1 x)) (mset (concat ss'))"
    by (simp only: mset_map)
  also have "\<dots> = mset (map (\<lambda>x. map_option fst (cells env1 x)) cs)"
    by (simp only: q(7) cc mset_map)
  finally have pairs: "mset (map (\<lambda>x. map_option fst (cells env' x)) (concat ss')) = mset (map Some es)"
    by (simp only: r(3))
  from run q(1) rep cnt q(2) load pairs show ?thesis by auto
qed

end
